theory Spec2Isabelle
  imports Complex_Main
begin

section \<open>Board and rules engine (class TicTacToeAI, tictactoe\_ai.py)\<close>

text \<open>
  The attribute \<open>self.board\<close> is a Python list of nine one-character strings,
  \<open>' '\<close>, \<open>'X'\<close> or \<open>'O'\<close>; it is created by \<open>__init__\<close> and
  \<open>reset_board\<close> only and every method keeps its length. It is modelled as a list of
  characters, which is at the same time the state key \<open>''.join(self.board)\<close>.
  Positions and moves are Python integers, hence \<open>int\<close>; a list is read at \<open>nat i\<close>,
  and every read below is at an index between 0 and 8. The methods mutate \<open>self.board\<close>
  in place; the model passes the board in and, where a method writes to it, returns it.
\<close>

type_synonym board = "char list"

text \<open>
  \<open>check_winner\<close> returns a cell's content, the string \<open>'Tie'\<close>, or \<open>None\<close>.
\<close>

datatype outcome = Mark char | Tie

text \<open>
  The board that \<open>__init__\<close> and \<open>reset_board\<close> assign (\<open>reset_board\<close> also makes
  \<open>'X'\<close> the current player, see \<open>play_self_game\<close> below).
\<close>

definition reset_board :: board where
  "reset_board = replicate 9 (CHR '' '')"

definition is_valid_move :: "board \<Rightarrow> int \<Rightarrow> bool" where
  "is_valid_move b position \<longleftrightarrow>
     0 \<le> position \<and> position < 9 \<and> b ! nat position = CHR '' ''"

text \<open>\<open>make_move\<close> returns its flag together with the board it leaves behind.\<close>

definition make_move :: "board \<Rightarrow> int \<Rightarrow> char \<Rightarrow> bool \<times> board" where
  "make_move b position player =
     (if is_valid_move b position then (True, b[nat position := player]) else (False, b))"

definition wins :: "int list list" where
  "wins = [[0, 1, 2], [3, 4, 5], [6, 7, 8],
           [0, 3, 6], [1, 4, 7], [2, 5, 8],
           [0, 4, 8], [2, 4, 6]]"

text \<open>
  The loop \<open>for combo in wins\<close> of \<open>check_winner\<close>; Python's chained comparison
  \<open>a == b == c != ' '\<close> is the conjunction of the three comparisons.
\<close>

fun check_combos :: "board \<Rightarrow> int list list \<Rightarrow> char option" where
  "check_combos b [] = None"
| "check_combos b (combo # rest) =
     (if b ! nat (combo ! 0) = b ! nat (combo ! 1) \<and>
         b ! nat (combo ! 1) = b ! nat (combo ! 2) \<and>
         b ! nat (combo ! 2) \<noteq> CHR '' ''
      then Some (b ! nat (combo ! 0))
      else check_combos b rest)"

definition check_winner :: "board \<Rightarrow> outcome option" where
  "check_winner b =
     (case check_combos b wins of
        Some c \<Rightarrow> Some (Mark c)
      | None \<Rightarrow> if CHR '' '' \<notin> set b then Some Tie else None)"

text \<open>
  \<open>[i for i in range(9) if self.board[i] == ' ']\<close>. On a list of fewer than nine
  cells the read \<open>self.board[i]\<close> raises IndexError in Python; \<open>self.board\<close> never is
  such a list, and the theorems below are about nine-cell boards. The bound
  \<open>nat i < length b\<close> only keeps the model from reading past the end of a shorter list,
  where \<open>!\<close> is unspecified in HOL.
\<close>

definition get_available_moves :: "board \<Rightarrow> int list" where
  "get_available_moves b =
     [i \<leftarrow> map int [0..<9]. nat i < length b \<and> b ! nat i = CHR '' '']"

text \<open>
  Vocabulary for the statements: mark \<open>c\<close> occupies the three cells of \<open>combo\<close>.
\<close>

abbreviation occupies :: "board \<Rightarrow> char \<Rightarrow> int list \<Rightarrow> bool" where
  "occupies b c combo \<equiv>
     c \<noteq> CHR '' '' \<and> b ! nat (combo ! 0) = c \<and> b ! nat (combo ! 1) = c \<and> b ! nat (combo ! 2) = c"


section \<open>Adversarial search (minimax, get\_best\_move)\<close>

text \<open>
  \<open>minimax\<close> returns an \<open>int\<close>, or \<open>-math.inf\<close> / \<open>math.inf\<close> when a loop body
  never ran; \<open>alpha\<close> and \<open>beta\<close> start as the two infinities.
\<close>

datatype score = NegInf | Fin int | PosInf

fun score_le :: "score \<Rightarrow> score \<Rightarrow> bool" where
  "score_le NegInf _ = True"
| "score_le (Fin a) NegInf = False"
| "score_le (Fin a) (Fin b) = (a \<le> b)"
| "score_le (Fin a) PosInf = True"
| "score_le PosInf PosInf = True"
| "score_le PosInf _ = False"

instantiation score :: linorder
begin

definition less_eq_score :: "score \<Rightarrow> score \<Rightarrow> bool" where
  "less_eq_score x y = score_le x y"

definition less_score :: "score \<Rightarrow> score \<Rightarrow> bool" where
  "less_score x y = (score_le x y \<and> \<not> score_le y x)"

instance
proof
  fix x y z :: score
  show "(x < y) = (x \<le> y \<and> \<not> y \<le> x)"
    by (simp add: less_eq_score_def less_score_def)
  show "x \<le> x"
    by (cases x) (simp_all add: less_eq_score_def)
  show "x \<le> y \<Longrightarrow> y \<le> z \<Longrightarrow> x \<le> z"
    by (cases x; cases y; cases z) (simp_all add: less_eq_score_def)
  show "x \<le> y \<Longrightarrow> y \<le> x \<Longrightarrow> x = y"
    by (cases x; cases y) (simp_all add: less_eq_score_def)
  show "x \<le> y \<or> y \<le> x"
    by (cases x; cases y) (auto simp: less_eq_score_def)
qed

end

text \<open>
  \<open>minimax\<close> with its two loops. Each loop writes the move to the board, calls
  \<open>minimax\<close> on the board as it then is, and clears the cell on the board the call
  left behind; \<open>break\<close> leaves the loop with the values accumulated so far.
\<close>

function minimax :: "int \<Rightarrow> bool \<Rightarrow> score \<Rightarrow> score \<Rightarrow> board \<Rightarrow> score \<times> board"
  and minimax_max :: "int \<Rightarrow> score \<Rightarrow> score \<Rightarrow> score \<Rightarrow> int list \<Rightarrow> board \<Rightarrow> score \<times> board"
  and minimax_min :: "int \<Rightarrow> score \<Rightarrow> score \<Rightarrow> score \<Rightarrow> int list \<Rightarrow> board \<Rightarrow> score \<times> board"
where
  "minimax depth is_maximizing alpha beta b =
     (let winner = check_winner b in
      if winner = Some (Mark (CHR ''X'')) then (Fin (10 - depth), b)
      else if winner = Some (Mark (CHR ''O'')) then (Fin (depth - 10), b)
      else if winner = Some Tie then (Fin 0, b)
      else if is_maximizing then minimax_max depth alpha beta NegInf (get_available_moves b) b
      else minimax_min depth alpha beta PosInf (get_available_moves b) b)"
| "minimax_max depth alpha beta max_eval [] b = (max_eval, b)"
| "minimax_max depth alpha beta max_eval (move # moves) b =
     (let (eval_score, b1) = minimax (depth + 1) False alpha beta (b[nat move := CHR ''X'']);
          b2 = b1[nat move := CHR '' ''];
          max_eval' = max max_eval eval_score;
          alpha' = max alpha eval_score
      in if beta \<le> alpha' then (max_eval', b2)
         else minimax_max depth alpha' beta max_eval' moves b2)"
| "minimax_min depth alpha beta min_eval [] b = (min_eval, b)"
| "minimax_min depth alpha beta min_eval (move # moves) b =
     (let (eval_score, b1) = minimax (depth + 1) True alpha beta (b[nat move := CHR ''O'']);
          b2 = b1[nat move := CHR '' ''];
          min_eval' = min min_eval eval_score;
          beta' = min beta eval_score
      in if beta' \<le> alpha then (min_eval', b2)
         else minimax_min depth alpha beta' min_eval' moves b2)"
  by pat_completeness auto


text \<open>
  The loop of \<open>get_best_move\<close>; \<open>self.minimax(0, player == 'O')\<close> takes the default
  bounds \<open>-math.inf\<close> and \<open>math.inf\<close>.
\<close>

fun best_move_loop :: "char \<Rightarrow> score \<Rightarrow> int \<Rightarrow> int list \<Rightarrow> board \<Rightarrow> int \<times> board" where
  "best_move_loop player best_score best_move [] b = (best_move, b)"
| "best_move_loop player best_score best_move (move # moves) b =
     (let (score, b1) = minimax 0 (player = CHR ''O'') NegInf PosInf (b[nat move := player]);
          b2 = b1[nat move := CHR '' '']
      in if player = CHR ''X'' \<and> score > best_score
         then best_move_loop player score move moves b2
         else if player = CHR ''O'' \<and> score < best_score
         then best_move_loop player score move moves b2
         else best_move_loop player best_score best_move moves b2)"

definition get_best_move :: "char \<Rightarrow> board \<Rightarrow> int \<times> board" where
  "get_best_move player b =
     best_move_loop player (if player = CHR ''X'' then NegInf else PosInf) (- 1)
       (get_available_moves b) b"

text \<open>
  Vocabulary for the statements: the score \<open>get_best_move\<close> computes for a candidate
  move, that is the result of \<open>self.minimax(0, player == 'O')\<close> on the board with the
  move made.
\<close>

abbreviation move_score :: "char \<Rightarrow> board \<Rightarrow> int \<Rightarrow> score" where
  "move_score player b move \<equiv>
     fst (minimax 0 (player = CHR ''O'') NegInf PosInf (b[nat move := player]))"

text \<open>
  For the termination argument: the cells a search can still write to, and the measure
  that decreases along the calls of \<open>minimax\<close> and its loops.
\<close>

definition empty_cells :: "board \<Rightarrow> nat set" where
  "empty_cells b = {i. i < length b \<and> i < 9 \<and> b ! i = CHR '' ''}"

definition search_measure ::
  "(int \<times> bool \<times> score \<times> score \<times> board) +
   (int \<times> score \<times> score \<times> score \<times> int list \<times> board) +
   (int \<times> score \<times> score \<times> score \<times> int list \<times> board) \<Rightarrow> nat \<times> nat \<times> nat" where
  "search_measure x =
     (case x of
        Inl (d, mx, a, bt, b) \<Rightarrow> (card (empty_cells b), 1, 0)
      | Inr (Inl (d, a, bt, me, ms, b)) \<Rightarrow> (card (empty_cells b \<union> nat ` set ms), 0, length ms)
      | Inr (Inr (d, a, bt, me, ms, b)) \<Rightarrow> (card (empty_cells b \<union> nat ` set ms), 0, length ms))"


text \<open>
  The value that section 4.2 of the specification gives a position, written from its
  words and not from the code: a finished game scores \<open>10 - depth\<close>, \<open>depth - 10\<close> or
  0, where \<open>depth\<close> is the number of plies played since the search root, so every move
  tried from a position is scored one ply deeper; at any other position the maximizing
  player takes the maximum over the available moves, in ascending order of the cells, and
  the minimizing player the minimum. Nothing is pruned and there are no bounds. The code's
  \<open>minimax\<close> is compared with this value below.
\<close>

function spec_minimax_value :: "int \<Rightarrow> bool \<Rightarrow> board \<Rightarrow> score" where
  "spec_minimax_value depth is_maximizing b =
     (if check_winner b = Some (Mark (CHR ''X'')) then Fin (10 - depth)
      else if check_winner b = Some (Mark (CHR ''O'')) then Fin (depth - 10)
      else if check_winner b = Some Tie then Fin 0
      else if is_maximizing
      then fold max
             (map (\<lambda>move. spec_minimax_value (depth + 1) False (b[nat move := CHR ''X'']))
                (get_available_moves b)) NegInf
      else fold min
             (map (\<lambda>move. spec_minimax_value (depth + 1) True (b[nat move := CHR ''O'']))
                (get_available_moves b)) PosInf)"
  by pat_completeness auto

text \<open>
  A board that lies \<open>k\<close> plies below a board: \<open>k\<close> moves are made in turn on boards
  on which \<open>check_winner\<close> gives \<open>None\<close>, each on an available cell, the maximizing
  player writing \<open>'X'\<close> and the minimizing player \<open>'O'\<close>, as the two loops of
  \<open>minimax\<close> do. The count of plies does not mention \<open>depth\<close>.
\<close>

inductive plies_below :: "bool \<Rightarrow> board \<Rightarrow> nat \<Rightarrow> board \<Rightarrow> bool" where
  here: "plies_below is_maximizing b 0 b"
| ply: "check_winner b = None \<Longrightarrow> move \<in> set (get_available_moves b) \<Longrightarrow>
        plies_below (\<not> is_maximizing)
          (b[nat move := (if is_maximizing then CHR ''X'' else CHR ''O'')]) k t \<Longrightarrow>
        plies_below is_maximizing b (Suc k) t"

text \<open>
  Vocabulary for the proof that pruning does not change the value: what a search with the
  bounds \<open>alpha\<close> and \<open>beta\<close> may return, \<open>r\<close>, when the value without pruning is
  \<open>v\<close>. Between the bounds it is the value; at or below \<open>alpha\<close> it is an upper
  bound of the value, at or above \<open>beta\<close> a lower bound.
\<close>

definition fail_soft :: "score \<Rightarrow> score \<Rightarrow> score \<Rightarrow> score \<Rightarrow> bool" where
  "fail_soft alpha beta v r \<longleftrightarrow>
     (r \<le> alpha \<longrightarrow> v \<le> r) \<and> (alpha < r \<and> r < beta \<longrightarrow> r = v) \<and> (beta \<le> r \<longrightarrow> r \<le> v)"


section \<open>Heuristic strategies (get\_defensive\_move)\<close>

text \<open>The Python exceptions the modelled code can raise.\<close>

datatype py_error = IndexError | FileNotFoundError | JSONDecodeError | ValueError

text \<open>
  \<open>random.choice(xs)\<close> raises IndexError on an empty list and otherwise returns the
  element at an index the generator draws; the draw is the parameter \<open>rnd\<close>.
\<close>

definition random_choice :: "nat \<Rightarrow> int list \<Rightarrow> py_error + int" where
  "random_choice rnd xs = (if xs = [] then Inl IndexError else Inr (xs ! (rnd mod length xs)))"

text \<open>
  The loop that \<open>get_defensive_move\<close> runs twice (and \<open>get_aggressive_move\<close> once):
  try each available move for \<open>mark\<close> on the board, return the first after which
  \<open>check_winner() == mark\<close>, and clear the cell again in either case.
\<close>

fun find_winning_move :: "char \<Rightarrow> int list \<Rightarrow> board \<Rightarrow> int option \<times> board" where
  "find_winning_move mark [] b = (None, b)"
| "find_winning_move mark (move # moves) b =
     (let b1 = b[nat move := mark] in
      if check_winner b1 = Some (Mark mark) then (Some move, b1[nat move := CHR '' ''])
      else find_winning_move mark moves (b1[nat move := CHR '' '']))"

definition get_defensive_move :: "nat \<Rightarrow> char \<Rightarrow> board \<Rightarrow> (py_error + int) \<times> board" where
  "get_defensive_move rnd player b =
     (let available = get_available_moves b;
          opponent = (if player = CHR ''X'' then CHR ''O'' else CHR ''X'');
          (blocking, b1) = find_winning_move opponent available b
      in case blocking of
           Some move \<Rightarrow> (Inr move, b1)
         | None \<Rightarrow>
            (let (winning, b2) = find_winning_move player available b1
             in case winning of
                  Some move \<Rightarrow> (Inr move, b2)
                | None \<Rightarrow>
                   if 4 \<in> set available then (Inr 4, b2)
                   else
                     (let edges = [1, 3, 5, 7];
                          edge_moves = [m \<leftarrow> available. m \<in> set edges]
                      in if edge_moves \<noteq> [] then (random_choice rnd edge_moves, b2)
                         else (random_choice rnd available, b2))))"

text \<open>
  Vocabulary for the statements: \<open>move\<close> is an immediate winning move for \<open>mark\<close>.
\<close>

abbreviation wins_at :: "board \<Rightarrow> char \<Rightarrow> int \<Rightarrow> bool" where
  "wins_at b mark move \<equiv> check_winner (b[nat move := mark]) = Some (Mark mark)"


section \<open>Reinforcement-learning agent (class QLearningAgent)\<close>

text \<open>
  The value table \<open>defaultdict(lambda: defaultdict(float))\<close> is a dictionary from state
  keys to dictionaries from actions to values; Python's floats are modelled by the reals.
  The attribute \<open>game_history\<close> is never read or written after \<open>__init__\<close> and is left
  out.
\<close>

record QLearningAgent =
  q_table :: "string \<rightharpoonup> (int \<rightharpoonup> real)"
  learning_rate :: real
  discount_factor :: real
  epsilon :: real

text \<open>\<open>__init__\<close> and its default arguments.\<close>

definition init_agent :: "real \<Rightarrow> real \<Rightarrow> real \<Rightarrow> QLearningAgent" where
  "init_agent lr df eps =
     \<lparr>q_table = Map.empty, learning_rate = lr, discount_factor = df, epsilon = eps\<rparr>"

definition default_agent :: QLearningAgent where
  "default_agent = init_agent 0.1 0.9 0.1"

text \<open>
  Reading a missing key of a \<open>defaultdict\<close> gives the default (an empty row, or 0.0) and
  stores it under the key. \<open>q_row\<close> is the row \<open>self.q_table[state]\<close> evaluates to.
\<close>

definition q_row :: "(string \<rightharpoonup> (int \<rightharpoonup> real)) \<Rightarrow> string \<Rightarrow> (int \<rightharpoonup> real)" where
  "q_row table state = (case table state of None \<Rightarrow> Map.empty | Some actions \<Rightarrow> actions)"

definition get_q_value :: "string \<Rightarrow> int \<Rightarrow> QLearningAgent \<Rightarrow> real \<times> QLearningAgent" where
  "get_q_value state action agent =
     (let actions = q_row (q_table agent) state;
          q = (case actions action of None \<Rightarrow> 0 | Some v \<Rightarrow> v)
      in (q, agent\<lparr>q_table := (q_table agent)(state \<mapsto> actions(action \<mapsto> q))\<rparr>))"

text \<open>
  The comprehension \<open>[self.get_q_value(next_state, a) for a in available_actions]\<close>.
\<close>

fun next_q_values :: "string \<Rightarrow> int list \<Rightarrow> QLearningAgent \<Rightarrow> real list \<times> QLearningAgent" where
  "next_q_values next_state [] agent = ([], agent)"
| "next_q_values next_state (a # as) agent =
     (let (q, agent1) = get_q_value next_state a agent;
          (qs, agent2) = next_q_values next_state as agent1
      in (q # qs, agent2))"

text \<open>
  \<open>update_q_value\<close>; \<open>max\<close> of a non-empty list keeps the largest element met from
  left to right.
\<close>

definition update_q_value ::
  "string \<Rightarrow> int \<Rightarrow> real \<Rightarrow> string \<Rightarrow> int list \<Rightarrow> QLearningAgent \<Rightarrow> QLearningAgent" where
  "update_q_value state action reward next_state available_actions agent =
     (let (current_q, agent1) = get_q_value state action agent;
          (max_next_q, agent2) =
             (if available_actions \<noteq> []
              then (let (qs, agent') = next_q_values next_state available_actions agent1
                    in (fold max (tl qs) (hd qs), agent'))
              else (0, agent1));
          new_q = current_q
                  + learning_rate agent2 * (reward + discount_factor agent2 * max_next_q - current_q)
      in agent2\<lparr>q_table :=
           (q_table agent2)(state \<mapsto> (q_row (q_table agent2) state)(action \<mapsto> new_q))\<rparr>)"

text \<open>
  \<open>save_q_table\<close> writes \<open>{state: dict(actions) for state, actions in
  self.q_table.items()}\<close> as JSON; the model returns that dictionary.
\<close>

definition save_q_table :: "QLearningAgent \<Rightarrow> (string \<rightharpoonup> (int \<rightharpoonup> real))" where
  "save_q_table agent =
     (\<lambda>state. case q_table agent state of None \<Rightarrow> None | Some actions \<Rightarrow> Some actions)"

text \<open>
  Vocabulary for the statements: the value the table holds for a pair, 0 when it holds
  none, and whether the serialized table has an entry for the pair.
\<close>

abbreviation q_value_of :: "QLearningAgent \<Rightarrow> string \<Rightarrow> int \<Rightarrow> real" where
  "q_value_of agent state action \<equiv>
     (case q_row (q_table agent) state action of None \<Rightarrow> 0 | Some v \<Rightarrow> v)"

abbreviation has_entry :: "QLearningAgent \<Rightarrow> string \<Rightarrow> int \<Rightarrow> bool" where
  "has_entry agent state action \<equiv> action \<in> dom (q_row (save_q_table agent) state)"

text \<open>
  A sequence of calls of \<open>get_q_value\<close> and \<open>update_q_value\<close> on one agent, in order.
\<close>

datatype q_call =
  Get_q_value string int
| Update_q_value string int real string "int list"

fun run_calls :: "q_call list \<Rightarrow> QLearningAgent \<Rightarrow> QLearningAgent" where
  "run_calls [] agent = agent"
| "run_calls (Get_q_value state action # calls) agent =
     run_calls calls (snd (get_q_value state action agent))"
| "run_calls (Update_q_value state action reward next_state available_actions # calls) agent =
     run_calls calls (update_q_value state action reward next_state available_actions agent)"


section \<open>End-of-episode update (TicTacToeAI.update\_q\_learning)\<close>

text \<open>
  \<open>update_q_learning\<close>: the dictionary \<open>rewards\<close>, \<open>dict.get\<close> with a default, the
  reward of an entry (the two conditional expressions of the loop body), and the loop
  over \<open>enumerate(self.game_states)\<close>, where \<open>i + 1 < len(self.game_states)\<close> holds
  exactly when an entry follows. The pair of agents is \<open>(self.q_agent_x, self.q_agent_o)\<close>.
\<close>

definition rewards :: "outcome \<rightharpoonup> real" where
  "rewards = [Mark (CHR ''X'') \<mapsto> 1, Mark (CHR ''O'') \<mapsto> - 1, Tie \<mapsto> 0]"

definition dict_get :: "('k \<rightharpoonup> 'v) \<Rightarrow> 'k \<Rightarrow> 'v \<Rightarrow> 'v" where
  "dict_get d k dflt = (case d k of None \<Rightarrow> dflt | Some v \<Rightarrow> v)"

definition entry_reward :: "outcome \<Rightarrow> char \<Rightarrow> real" where
  "entry_reward winner player =
     (if player = CHR ''X''
      then (if winner = Mark (CHR ''X'') then dict_get rewards winner 0
            else (if winner = Tie then 0 else - 1))
      else (if winner = Mark (CHR ''O'') then dict_get rewards winner 0
            else (if winner = Tie then 0 else - 1)))"

fun update_q_learning_loop ::
  "outcome \<Rightarrow> (string \<times> int \<times> char) list \<Rightarrow> QLearningAgent \<times> QLearningAgent
     \<Rightarrow> QLearningAgent \<times> QLearningAgent" where
  "update_q_learning_loop winner [] agents = agents"
| "update_q_learning_loop winner ((state, action, player) # rest) (q_agent_x, q_agent_o) =
     (let reward = entry_reward winner player;
          (next_state, next_available) =
             (case rest of
                (next_state, _) # _ \<Rightarrow>
                  (next_state, [j \<leftarrow> map int [0..<9]. next_state ! nat j = CHR '' ''])
              | [] \<Rightarrow> (state, []))
      in if player = CHR ''X''
         then update_q_learning_loop winner rest
                (update_q_value state action reward next_state next_available q_agent_x, q_agent_o)
         else update_q_learning_loop winner rest
                (q_agent_x, update_q_value state action reward next_state next_available q_agent_o))"

definition update_q_learning ::
  "outcome \<Rightarrow> (string \<times> int \<times> char) list \<Rightarrow> QLearningAgent \<times> QLearningAgent
     \<Rightarrow> QLearningAgent \<times> QLearningAgent" where
  "update_q_learning winner game_states agents = update_q_learning_loop winner game_states agents"


section \<open>Loading a value table (QLearningAgent.load\_q\_table)\<close>

text \<open>
  \<open>load_q_table\<close>. What \<open>open(filename, 'r')\<close> and \<open>json.load(f)\<close> give is an input of the
  model: the file is missing (\<open>open\<close> raises FileNotFoundError), its text is not JSON
  (\<open>json.load\<close> raises JSONDecodeError), or it is a document of the shape
  \<open>save_q_table\<close> writes, an object of objects of numbers, given by its items in order.
  \<open>py_int\<close> stands for Python's \<open>int\<close> on a key string, \<open>None\<close> when it raises
  ValueError.
\<close>

datatype source = Missing | Malformed | Document "(string \<times> (string \<times> real) list) list"

text \<open>
  The two loops. In \<open>self.q_table[state][int(action)] = value\<close> the row
  \<open>self.q_table[state]\<close> is looked up, and so stored if missing, before \<open>int(action)\<close>
  is evaluated. A loop stops at the first exception and leaves the table as it then is.
\<close>

fun load_actions ::
  "(string \<Rightarrow> int option) \<Rightarrow> string \<Rightarrow> (string \<times> real) list
     \<Rightarrow> (string \<rightharpoonup> (int \<rightharpoonup> real)) \<Rightarrow> py_error option \<times> (string \<rightharpoonup> (int \<rightharpoonup> real))" where
  "load_actions py_int state [] table = (None, table)"
| "load_actions py_int state ((action, v) # rest) table =
     (let actions = q_row table state;
          table1 = table(state \<mapsto> actions)
      in case py_int action of
           None \<Rightarrow> (Some ValueError, table1)
         | Some a \<Rightarrow> load_actions py_int state rest (table1(state \<mapsto> actions(a \<mapsto> v))))"

fun load_states ::
  "(string \<Rightarrow> int option) \<Rightarrow> (string \<times> (string \<times> real) list) list
     \<Rightarrow> (string \<rightharpoonup> (int \<rightharpoonup> real)) \<Rightarrow> py_error option \<times> (string \<rightharpoonup> (int \<rightharpoonup> real))" where
  "load_states py_int [] table = (None, table)"
| "load_states py_int ((state, actions) # rest) table =
     (case load_actions py_int state actions table of
        (Some e, table1) \<Rightarrow> (Some e, table1)
      | (None, table1) \<Rightarrow> load_states py_int rest table1)"

text \<open>
  The result is the exception that reaches the caller, if any (\<open>None\<close>: the call returns,
  and what it returns is Python's \<open>None\<close> in every case), the lines printed, and the
  agent. Only FileNotFoundError is caught.
\<close>

definition load_q_table ::
  "(string \<Rightarrow> int option) \<Rightarrow> string \<Rightarrow> source \<Rightarrow> QLearningAgent
     \<Rightarrow> py_error option \<times> string list \<times> QLearningAgent" where
  "load_q_table py_int filename src agent =
     (case src of
        Missing \<Rightarrow>
          (None, [''Q-table file '' @ filename @ '' not found. Starting with empty Q-table.''],
           agent)
      | Malformed \<Rightarrow> (Some JSONDecodeError, [], agent)
      | Document q_dict \<Rightarrow>
          (case load_states py_int q_dict Map.empty of
             (raised, table) \<Rightarrow> (raised, [], agent\<lparr>q_table := table\<rparr>)))"


section \<open>The orchestrator (TicTacToeAI.play\_self\_game)\<close>

text \<open>
  The game object. The data collector, the printing and the clock are left out: they
  neither read nor change the fields below.
\<close>

datatype Strategy = MINIMAX | Q_LEARNING | RANDOM | AGGRESSIVE | DEFENSIVE | HYBRID

record TicTacToeAI =
  board :: board
  current_player :: char
  strategy_x :: Strategy
  strategy_o :: Strategy
  q_agent_x :: QLearningAgent
  q_agent_o :: QLearningAgent
  game_states :: "(string \<times> int \<times> char) list"
  current_game_moves :: "(string \<times> int \<times> char) list"

text \<open>
  One round of the \<open>while True\<close> loop of \<open>play_self_game\<close>, from the move that
  \<open>get_move_by_strategy\<close> returned: record the entry, call \<open>make_move\<close> and drop its
  result, call \<open>check_winner\<close>; on an outcome run the end-of-episode update when
  learning and return the outcome, otherwise pass the turn.
\<close>

definition play_turn ::
  "bool \<Rightarrow> bool \<Rightarrow> int \<Rightarrow> TicTacToeAI \<Rightarrow> outcome option \<times> TicTacToeAI" where
  "play_turn training collect_data move g =
     (let current_state = board g;
          learning = (training \<and> (strategy_x g = Q_LEARNING \<or> strategy_o g = Q_LEARNING));
          g1 = (if collect_data
                then g\<lparr>current_game_moves :=
                        current_game_moves g @ [(current_state, move, current_player g)]\<rparr>
                else g);
          g2 = (if learning
                then g1\<lparr>game_states := game_states g1 @ [(current_state, move, current_player g1)]\<rparr>
                else g1);
          g3 = g2\<lparr>board := snd (make_move (board g2) move (current_player g2))\<rparr>;
          winner = check_winner (board g3)
      in case winner of
           Some w \<Rightarrow>
             (Some w,
              if learning
              then (let (agent_x, agent_o) =
                          update_q_learning w (game_states g3) (q_agent_x g3, q_agent_o g3)
                    in g3\<lparr>q_agent_x := agent_x, q_agent_o := agent_o\<rparr>)
              else g3)
         | None \<Rightarrow>
             (None,
              g3\<lparr>current_player :=
                   (if current_player g3 = CHR ''X'' then CHR ''O'' else CHR ''X'')\<rparr>))"

text \<open>
  The loop itself, which need not end. \<open>get_move_by_strategy\<close> is a parameter: any
  function from the game (board, player to move, strategies, agents) to a move.
\<close>

partial_function (option) play_loop ::
  "(TicTacToeAI \<Rightarrow> int) \<Rightarrow> bool \<Rightarrow> bool \<Rightarrow> TicTacToeAI \<Rightarrow> (outcome \<times> TicTacToeAI) option" where
  "play_loop get_move_by_strategy training collect_data g =
     (case play_turn training collect_data (get_move_by_strategy g) g of
        (Some winner, g') \<Rightarrow> Some (winner, g')
      | (None, g') \<Rightarrow> play_loop get_move_by_strategy training collect_data g')"

definition play_self_game ::
  "(TicTacToeAI \<Rightarrow> int) \<Rightarrow> bool \<Rightarrow> bool \<Rightarrow> TicTacToeAI \<Rightarrow> (outcome \<times> TicTacToeAI) option" where
  "play_self_game get_move_by_strategy training collect_data g =
     play_loop get_move_by_strategy training collect_data
       (g\<lparr>board := reset_board, current_player := CHR ''X'',
          game_states := [], current_game_moves := []\<rparr>)"


section \<open>Boards of a game\<close>

text \<open>
  The boards \<open>play_self_game\<close> passes through when every move is legal, with the player
  whose turn is next: the game starts on the empty board with \<open>'X'\<close> to move; while
  \<open>check_winner\<close> gives \<open>None\<close> the current player's move is made and the turn passes
  to the other player.
\<close>

inductive legal_play :: "char \<Rightarrow> board \<Rightarrow> bool" where
  start: "legal_play (CHR ''X'') reset_board"
| move: "legal_play player b \<Longrightarrow> check_winner b = None \<Longrightarrow> is_valid_move b position \<Longrightarrow>
         legal_play (if player = CHR ''X'' then CHR ''O'' else CHR ''X'')
           (snd (make_move b position player))"


section \<open>Terminal detection\<close>

lemma range9: "map int [0..<9] = [0, 1, 2, 3, 4, 5, 6, 7, 8]"
  by code_simp

lemma check_combos_Some:
  "check_combos b ws = Some c \<Longrightarrow> \<exists>combo \<in> set ws. occupies b c combo"
  by (induction ws) (auto split: if_splits)

lemma check_combos_None:
  "check_combos b ws = None \<longleftrightarrow> (\<forall>combo \<in> set ws. \<forall>c. \<not> occupies b c combo)"
  by (induction ws) auto

lemma wins_geometry:
  "set wins = (\<lambda>r. [3 * r, 3 * r + 1, 3 * r + 2]) ` {0, 1, 2}
            \<union> (\<lambda>c. [c, c + 3, c + 6]) ` {0, 1, 2}
            \<union> {[0, 4, 8], [2, 4, 6]}"
  by (auto simp: wins_def)

text \<open>
  Claim C5. On every nine-cell board, \<open>check_winner\<close> looks at exactly the eight lines
  (three rows, three columns, two diagonals). If some line is fully occupied by one mark,
  it returns the mark of a player occupying such a line; otherwise it returns
  \<open>'Tie'\<close> exactly when no cell is empty, and \<open>None\<close> when one is. Hence
  \<open>'Tie'\<close> is never returned for a board with an occupied line.
\<close>

theorem check_winner_correct:
  assumes "length b = 9"
  shows "length wins = 8
    \<and> set wins = (\<lambda>r. [3 * r, 3 * r + 1, 3 * r + 2]) ` {0, 1, 2}
               \<union> (\<lambda>c. [c, c + 3, c + 6]) ` {0, 1, 2}
               \<union> {[0, 4, 8], [2, 4, 6]}
    \<and> ((\<exists>combo \<in> set wins. \<exists>c. occupies b c combo) \<longrightarrow>
          (\<exists>c. check_winner b = Some (Mark c) \<and> (\<exists>combo \<in> set wins. occupies b c combo)))
    \<and> (\<not> (\<exists>combo \<in> set wins. \<exists>c. occupies b c combo) \<longrightarrow>
          check_winner b = (if CHR '' '' \<in> set b then None else Some Tie))
    \<and> (check_winner b = Some Tie \<longrightarrow>
          \<not> (\<exists>combo \<in> set wins. \<exists>c. occupies b c combo) \<and> CHR '' '' \<notin> set b)"
proof -
  have len: "length wins = 8"
    by (simp add: wins_def)
  have won: "\<exists>c. check_winner b = Some (Mark c) \<and> (\<exists>combo \<in> set wins. occupies b c combo)"
    if "\<exists>combo \<in> set wins. \<exists>c. occupies b c combo"
  proof -
    from that have "check_combos b wins \<noteq> None"
      by (simp only: check_combos_None) blast
    then obtain c where c: "check_combos b wins = Some c"
      by blast
    from check_combos_Some [OF c] c show ?thesis
      by (auto simp: check_winner_def)
  qed
  have none: "check_winner b = (if CHR '' '' \<in> set b then None else Some Tie)"
    if "\<not> (\<exists>combo \<in> set wins. \<exists>c. occupies b c combo)"
  proof -
    from that have "check_combos b wins = None"
      by (simp only: check_combos_None) blast
    then show ?thesis
      by (simp add: check_winner_def)
  qed
  have tie: "\<not> (\<exists>combo \<in> set wins. \<exists>c. occupies b c combo) \<and> CHR '' '' \<notin> set b"
    if "check_winner b = Some Tie"
  proof -
    from that have "check_combos b wins = None"
      by (auto simp: check_winner_def split: option.splits)
    with that show ?thesis
      by (auto simp: check_combos_None check_winner_def split: if_splits)
  qed
  from len wins_geometry won none tie show ?thesis
    by blast
qed

theorem check_winner_correct_witness:
  "length ''XXOOOXXOX'' = 9
   \<and> check_winner ''XXOOOXXOX'' = Some Tie
   \<and> check_winner ''XX OOO X '' = Some (Mark (CHR ''O''))
   \<and> occupies ''XX OOO X '' (CHR ''O'') [3, 4, 5]
   \<and> check_winner ''XX OO  X '' = None"
proof -
  have a: "length ''XXOOOXXOX'' = 9" "length ''XX OOO X '' = 9" "length ''XX OO  X '' = 9"
    by simp_all
  have w: "[3, 4, 5] \<in> set wins"
    by (simp add: wins_def)
  have o: "occupies ''XX OOO X '' (CHR ''O'') [3, 4, 5]"
    by simp
  have n1: "\<not> (\<exists>combo \<in> set wins. \<exists>c. occupies ''XXOOOXXOX'' c combo)"
    by (simp add: wins_def)
  have n2: "\<not> (\<exists>combo \<in> set wins. \<exists>c. occupies ''XX OO  X '' c combo)"
    by (simp add: wins_def)
  from check_winner_correct [OF a(1)] n1 have t1: "check_winner ''XXOOOXXOX'' = Some Tie"
    by simp
  from check_winner_correct [OF a(3)] n2 have t3: "check_winner ''XX OO  X '' = None"
    by simp
  from check_winner_correct [OF a(2)] w o
  obtain c combo where c: "check_winner ''XX OOO X '' = Some (Mark c)"
    and "combo \<in> set wins" "occupies ''XX OOO X '' c combo"
    by blast
  then have "c = CHR ''O''"
    by (auto simp: wins_def)
  with c a t1 t3 o show ?thesis
    by simp
qed


section \<open>The search terminates and restores the board\<close>

lemma undo_write:
  "nat move < length b \<longrightarrow> b ! nat move = CHR '' '' \<Longrightarrow>
   b[nat move := c, nat move := CHR '' ''] = b"
  by (cases "nat move < length b") (simp_all add: list_update_same_conv list_update_beyond)

lemma minimax_restores_dom:
  "minimax_minimax_max_minimax_min_dom (Inl (depth, is_maximizing, alpha, beta, b)) \<Longrightarrow>
     snd (minimax depth is_maximizing alpha beta b) = b"
  "minimax_minimax_max_minimax_min_dom (Inr (Inl (depth, alpha, beta, max_eval, moves, b))) \<Longrightarrow>
     (\<forall>m \<in> set moves. nat m < length b \<longrightarrow> b ! nat m = CHR '' '') \<longrightarrow>
     snd (minimax_max depth alpha beta max_eval moves b) = b"
  "minimax_minimax_max_minimax_min_dom (Inr (Inr (depth, alpha, beta, min_eval, moves, b))) \<Longrightarrow>
     (\<forall>m \<in> set moves. nat m < length b \<longrightarrow> b ! nat m = CHR '' '') \<longrightarrow>
     snd (minimax_min depth alpha beta min_eval moves b) = b"
proof (induction rule: minimax_minimax_max_minimax_min.pinduct)
  case (1 depth is_maximizing alpha beta b)
  have av: "\<forall>m \<in> set (get_available_moves b). nat m < length b \<longrightarrow> b ! nat m = CHR '' ''"
    by (simp add: get_available_moves_def)
  from 1 av show ?case
    by (simp add: minimax.psimps Let_def)
next
  case (2 depth alpha beta max_eval b)
  then show ?case by (simp add: minimax_max.psimps)
next
  case (3 depth alpha beta max_eval move moves b)
  show ?case
  proof
    assume pre: "\<forall>m \<in> set (move # moves). nat m < length b \<longrightarrow> b ! nat m = CHR '' ''"
    obtain e b1 where call: "minimax (depth + 1) False alpha beta (b[nat move := CHR ''X'']) = (e, b1)"
      by (cases "minimax (depth + 1) False alpha beta (b[nat move := CHR ''X''])")
    with "3.IH"(1) have b1: "b1 = b[nat move := CHR ''X'']"
      by simp
    from pre have b2: "b1[nat move := CHR '' ''] = b"
      unfolding b1 by (intro undo_write) simp
    from "3.IH"(2) [OF call [symmetric] refl refl refl refl] pre b2
    have "\<not> beta \<le> max alpha e \<Longrightarrow>
       snd (minimax_max depth (max alpha e) beta (max max_eval e) moves b) = b"
      by simp
    with call b2 "3.hyps" show "snd (minimax_max depth alpha beta max_eval (move # moves) b) = b"
      by (simp add: minimax_max.psimps Let_def)
  qed
next
  case (4 depth alpha beta min_eval b)
  then show ?case by (simp add: minimax_min.psimps)
next
  case (5 depth alpha beta min_eval move moves b)
  show ?case
  proof
    assume pre: "\<forall>m \<in> set (move # moves). nat m < length b \<longrightarrow> b ! nat m = CHR '' ''"
    obtain e b1 where call: "minimax (depth + 1) True alpha beta (b[nat move := CHR ''O'']) = (e, b1)"
      by (cases "minimax (depth + 1) True alpha beta (b[nat move := CHR ''O''])")
    with "5.IH"(1) have b1: "b1 = b[nat move := CHR ''O'']"
      by simp
    from pre have b2: "b1[nat move := CHR '' ''] = b"
      unfolding b1 by (intro undo_write) simp
    from "5.IH"(2) [OF call [symmetric] refl refl refl refl] pre b2
    have "\<not> min beta e \<le> alpha \<Longrightarrow>
       snd (minimax_min depth alpha (min beta e) (min min_eval e) moves b) = b"
      by simp
    with call b2 "5.hyps" show "snd (minimax_min depth alpha beta min_eval (move # moves) b) = b"
      by (simp add: minimax_min.psimps Let_def)
  qed
qed


lemma finite_empty_cells: "finite (empty_cells b)"
  by (simp add: empty_cells_def)

lemma empty_cells_available: "nat ` set (get_available_moves b) = empty_cells b"
proof (intro set_eqI iffI)
  fix i assume "i \<in> nat ` set (get_available_moves b)"
  then show "i \<in> empty_cells b"
    by (auto simp: get_available_moves_def empty_cells_def)
next
  fix i assume "i \<in> empty_cells b"
  then have "int i \<in> set (get_available_moves b)"
    by (simp add: get_available_moves_def empty_cells_def)
  then show "i \<in> nat ` set (get_available_moves b)"
    by force
qed

lemma empty_cells_write:
  "c \<noteq> CHR '' '' \<Longrightarrow> empty_cells (b[i := c]) = empty_cells b - {i}"
  by (cases "i < length b") (auto simp: empty_cells_def nth_list_update list_update_beyond split: if_splits)

lemma empty_cells_clear: "empty_cells (b[i := CHR '' '']) \<subseteq> insert i (empty_cells b)"
  by (auto simp: empty_cells_def nth_list_update split: if_splits)

lemma loop_enters_smaller:
  "c \<noteq> CHR '' '' \<Longrightarrow>
   card (empty_cells (b[nat move := c])) < card (empty_cells b \<union> nat ` set (move # moves))"
  by (rule psubset_card_mono) (auto simp: finite_empty_cells empty_cells_write)

lemma loop_continues_smaller:
  "card (empty_cells (b[nat move := c, nat move := CHR '' '']) \<union> nat ` set moves)
     \<le> card (empty_cells b \<union> nat ` set (move # moves))"
proof (rule card_mono)
  show "finite (empty_cells b \<union> nat ` set (move # moves))"
    by (simp add: finite_empty_cells)
  from empty_cells_clear [of b "nat move"]
  show "empty_cells (b[nat move := c, nat move := CHR '' '']) \<union> nat ` set moves
          \<subseteq> empty_cells b \<union> nat ` set (move # moves)"
    by auto
qed

lemma search_total: "All minimax_minimax_max_minimax_min_dom"
proof (relation "inv_image (less_than <*lex*> less_than <*lex*> less_than) search_measure", goal_cases)
  case 1
  show ?case by (intro wf_inv_image wf_lex_prod wf_less_than)
next
  case (2 depth is_maximizing alpha beta b x)
  show ?case by (simp add: search_measure_def empty_cells_available Un_absorb)
next
  case (3 depth is_maximizing alpha beta b x)
  show ?case by (simp add: search_measure_def empty_cells_available Un_absorb)
next
  case (4 depth alpha beta max_eval move moves b)
  from loop_enters_smaller [of "CHR ''X''" b move moves]
  show ?case by (simp add: search_measure_def)
next
  case (5 depth alpha beta max_eval move moves b x xa y xb xc xd)
  from 5 minimax_restores_dom(1) [of "depth + 1" False alpha beta "b[nat move := CHR ''X'']"]
  have "y = b[nat move := CHR ''X'']"
    by (metis snd_conv)
  with 5 loop_continues_smaller [of b move "CHR ''X''" moves]
  show ?case by (auto simp: search_measure_def)
next
  case (6 depth alpha beta min_eval move moves b)
  from loop_enters_smaller [of "CHR ''O''" b move moves]
  show ?case by (simp add: search_measure_def)
next
  case (7 depth alpha beta min_eval move moves b x xa y xb xc xd)
  from 7 minimax_restores_dom(1) [of "depth + 1" True alpha beta "b[nat move := CHR ''O'']"]
  have "y = b[nat move := CHR ''O'']"
    by (metis snd_conv)
  with 7 loop_continues_smaller [of b move "CHR ''O''" moves]
  show ?case by (auto simp: search_measure_def)
qed

termination minimax
  by (rule search_total)

lemma minimax_restores: "snd (minimax depth is_maximizing alpha beta b) = b"
  using minimax_restores_dom(1) search_total by blast


section \<open>Scores of finished games\<close>

lemma check_winner_None_iff:
  "check_winner b = None \<longleftrightarrow>
     (\<forall>combo \<in> set wins. \<forall>c. \<not> occupies b c combo) \<and> CHR '' '' \<in> set b"
proof (cases "check_combos b wins")
  case None
  then have "\<forall>combo \<in> set wins. \<forall>c. \<not> occupies b c combo"
    by (simp only: check_combos_None)
  with None show ?thesis
    by (simp add: check_winner_def)
next
  case (Some c)
  then have "check_winner b \<noteq> None"
    by (simp add: check_winner_def)
  with check_combos_Some [OF Some] show ?thesis
    by blast
qed

lemma wins_cells:
  "combo \<in> set wins \<Longrightarrow> 0 \<le> combo ! k \<and> combo ! k < 9" if "k < 3"
  using that by (auto simp: wins_def less_Suc_eq numeral_3_eq_3)

lemma legal_play_invariant:
  "legal_play player b \<Longrightarrow>
     length b = 9 \<and> set b \<subseteq> {CHR '' '', CHR ''X'', CHR ''O''}
     \<and> (player = CHR ''X'' \<or> player = CHR ''O'')
     \<and> (\<forall>combo \<in> set wins. \<forall>c. occupies b c combo \<longrightarrow>
           c = (if player = CHR ''X'' then CHR ''O'' else CHR ''X''))"
proof (induction rule: legal_play.induct)
  case start
  show ?case by (auto simp: reset_board_def wins_def)
next
  case (move player b position)
  let ?b' = "b[nat position := player]"
  from move.hyps(3) have pos: "nat position < 9" "b ! nat position = CHR '' ''"
    by (auto simp: is_valid_move_def)
  from move.IH have len: "length b = 9" and cells: "set b \<subseteq> {CHR '' '', CHR ''X'', CHR ''O''}"
    and pl: "player = CHR ''X'' \<or> player = CHR ''O''"
    by auto
  from move.hyps(2) have free: "\<And>combo c. combo \<in> set wins \<Longrightarrow> \<not> occupies b c combo"
    by (simp only: check_winner_None_iff) blast
  have new: "c = player" if "combo \<in> set wins" "occupies ?b' c combo" for combo c
  proof (rule ccontr)
    assume "c \<noteq> player"
    with that(2) pos len have "occupies b c combo"
      by (auto simp: nth_list_update split: if_splits)
    with free [OF that(1)] show False by blast
  qed
  have "set ?b' \<subseteq> insert player (set b)"
    by (rule set_update_subset_insert)
  with cells pl have "set ?b' \<subseteq> {CHR '' '', CHR ''X'', CHR ''O''}"
    by auto
  with len pl new move.hyps(3) show ?case
    by (auto simp: make_move_def)
qed

lemma Fin_less [simp]: "Fin a < Fin b \<longleftrightarrow> a < b"
  by (auto simp: less_score_def)

lemma Fin_le [simp]: "Fin a \<le> Fin b \<longleftrightarrow> a \<le> b"
  by (simp add: less_eq_score_def)

declare minimax.simps [simp del]

lemma minimax_terminal:
  "check_winner b = Some (Mark (CHR ''X'')) \<Longrightarrow>
     minimax depth is_maximizing alpha beta b = (Fin (10 - depth), b)"
  "check_winner b = Some (Mark (CHR ''O'')) \<Longrightarrow>
     minimax depth is_maximizing alpha beta b = (Fin (depth - 10), b)"
  "check_winner b = Some Tie \<Longrightarrow>
     minimax depth is_maximizing alpha beta b = (Fin 0, b)"
  by (simp_all add: minimax.simps)

lemma legal_play_winner:
  assumes "legal_play player b" "combo \<in> set wins" "occupies b c combo"
  shows "check_winner b = Some (Mark c)"
proof -
  from assms(2,3) have "check_combos b wins \<noteq> None"
    by (simp only: check_combos_None) blast
  then obtain c' where c': "check_combos b wins = Some c'"
    by blast
  from check_combos_Some [OF c'] obtain combo' where "combo' \<in> set wins" "occupies b c' combo'"
    by blast
  with legal_play_invariant [OF assms(1)] assms(2,3) have "c' = c"
    by metis
  with c' show ?thesis
    by (simp add: check_winner_def)
qed

lemma proper_winner:
  assumes "length b = 9" "set b \<subseteq> {CHR '' '', CHR ''X'', CHR ''O''}"
    and "check_winner b = Some (Mark c)"
  shows "c = CHR ''X'' \<or> c = CHR ''O''"
proof -
  from assms(3) have "check_combos b wins = Some c"
    by (auto simp: check_winner_def split: option.splits if_splits)
  from check_combos_Some [OF this] obtain combo
    where combo: "combo \<in> set wins" and occ: "occupies b c combo"
    by blast
  from combo have "nat (combo ! 0) < 9"
    by (auto simp: wins_def)
  with assms(1) occ have "c \<in> set b"
    by (metis nth_mem)
  with assms(2) occ show ?thesis
    by auto
qed

lemma available_cells:
  "m \<in> set (get_available_moves b) \<longleftrightarrow> 0 \<le> m \<and> m < 9 \<and> nat m < length b \<and> b ! nat m = CHR '' ''"
proof -
  have "m \<in> int ` {0..<9} \<longleftrightarrow> 0 \<le> m \<and> m < 9"
    by (auto simp: image_iff intro: bexI [of _ "nat m"])
  then show ?thesis
    by (auto simp: get_available_moves_def)
qed

lemma available_nonempty:
  assumes "length b = 9" "CHR '' '' \<in> set b"
  shows "get_available_moves b \<noteq> []"
proof -
  from assms(2) obtain i where "i < length b" "b ! i = CHR '' ''"
    by (auto simp: in_set_conv_nth)
  with assms(1) have "int i \<in> set (get_available_moves b)"
    by (simp add: available_cells)
  then show ?thesis
    by auto
qed

lemma proper_write:
  "set b \<subseteq> {CHR '' '', CHR ''X'', CHR ''O''} \<Longrightarrow> c \<in> {CHR '' '', CHR ''X'', CHR ''O''} \<Longrightarrow>
   set (b[i := c]) \<subseteq> {CHR '' '', CHR ''X'', CHR ''O''}"
  using set_update_subset_insert [of b i c] by blast

text \<open>
  The search agrees with the specification's value. With bounds \<open>alpha < beta\<close> the
  result of \<open>minimax\<close> is that value when it lies between the bounds, and a bound of it
  on the side of the bound it has reached; with the default bounds it is the value.
\<close>

lemma available_write_smaller:
  assumes "move \<in> set (get_available_moves b)" "c \<noteq> CHR '' ''"
  shows "card (empty_cells (b[nat move := c])) < card (empty_cells b)"
proof -
  from assms(1) have "nat move \<in> empty_cells b"
    using empty_cells_available [of b] by blast
  then have "card (empty_cells b - {nat move}) < card (empty_cells b)"
    by (intro card_Diff1_less finite_empty_cells)
  then show ?thesis
    unfolding empty_cells_write [OF assms(2)] .
qed

termination spec_minimax_value
  by (relation "measure (\<lambda>(depth, is_maximizing, b). card (empty_cells b))")
    (simp_all add: available_write_smaller)

declare spec_minimax_value.simps [simp del]

lemma minimax_max_ge: "max_eval \<le> fst (minimax_max depth alpha beta max_eval moves b)"
proof (induction moves arbitrary: alpha max_eval b)
  case Nil
  show ?case by simp
next
  case (Cons move moves)
  obtain e y where call: "minimax (depth + 1) False alpha beta (b[nat move := CHR ''X'']) = (e, y)"
    by (cases "minimax (depth + 1) False alpha beta (b[nat move := CHR ''X''])")
  have "max_eval \<le> max max_eval e"
    by simp
  also have "max max_eval e \<le> fst (minimax_max depth alpha beta max_eval (move # moves) b)"
    using Cons.IH [of "max max_eval e" "max alpha e" "y[nat move := CHR '' '']"] call
    by (simp add: Let_def)
  finally show ?case .
qed

lemma minimax_min_le: "fst (minimax_min depth alpha beta min_eval moves b) \<le> min_eval"
proof (induction moves arbitrary: beta min_eval b)
  case Nil
  show ?case by simp
next
  case (Cons move moves)
  obtain e y where call: "minimax (depth + 1) True alpha beta (b[nat move := CHR ''O'']) = (e, y)"
    by (cases "minimax (depth + 1) True alpha beta (b[nat move := CHR ''O''])")
  have "fst (minimax_min depth alpha beta min_eval (move # moves) b) \<le> min min_eval e"
    using Cons.IH [of "min beta e" "min min_eval e" "y[nat move := CHR '' '']"] call
    by (simp add: Let_def)
  also have "min min_eval e \<le> min_eval"
    by simp
  finally show ?case .
qed

lemma fold_max_bottom: "fold max vs a = max a (fold max vs NegInf)"
proof (induction vs arbitrary: a)
  case Nil
  show ?case by (cases a) (simp_all add: max_def less_eq_score_def)
next
  case (Cons v vs)
  have "max v NegInf = v"
    by (cases v) (simp_all add: max_def less_eq_score_def)
  with Cons [of "max v a"] Cons [of v] show ?case
    by (simp add: max.assoc max.commute)
qed

lemma fold_min_top: "fold min vs a = min a (fold min vs PosInf)"
proof (induction vs arbitrary: a)
  case Nil
  show ?case by (cases a) (simp_all add: min_def less_eq_score_def)
next
  case (Cons v vs)
  have "min v PosInf = v"
    by (cases v) (simp_all add: min_def less_eq_score_def)
  with Cons [of "min v a"] Cons [of v] show ?case
    by (simp add: min.assoc min.commute)
qed

lemma max_break:
  fixes alpha :: "'a :: linorder"
  assumes "alpha < beta" and "(e \<le> alpha \<longrightarrow> c \<le> e) \<and> (alpha < e \<and> e < beta \<longrightarrow> e = c) \<and> (beta \<le> e \<longrightarrow> e \<le> c)"
    and "beta \<le> max alpha e" and "me \<le> alpha"
  shows "(max me e \<le> alpha \<longrightarrow> max (max me c) w \<le> max me e)
       \<and> (alpha < max me e \<and> max me e < beta \<longrightarrow> max me e = max (max me c) w)
       \<and> (beta \<le> max me e \<longrightarrow> max me e \<le> max (max me c) w)"
  using assms unfolding max_def by (auto split: if_splits)

lemma max_continue:
  fixes alpha :: "'a :: linorder"
  assumes "alpha < beta" and "(e \<le> alpha \<longrightarrow> c \<le> e) \<and> (alpha < e \<and> e < beta \<longrightarrow> e = c) \<and> (beta \<le> e \<longrightarrow> e \<le> c)"
    and "\<not> beta \<le> max alpha e" and "me \<le> alpha"
    and "(r \<le> max alpha e \<longrightarrow> max (max me e) w \<le> r)
       \<and> (max alpha e < r \<and> r < beta \<longrightarrow> r = max (max me e) w)
       \<and> (beta \<le> r \<longrightarrow> r \<le> max (max me e) w)"
    and "max me e \<le> r"
  shows "(r \<le> alpha \<longrightarrow> max (max me c) w \<le> r)
       \<and> (alpha < r \<and> r < beta \<longrightarrow> r = max (max me c) w)
       \<and> (beta \<le> r \<longrightarrow> r \<le> max (max me c) w)"
  using assms unfolding max_def by (auto split: if_splits)

lemma min_break:
  fixes alpha :: "'a :: linorder"
  assumes "alpha < beta" and "(e \<le> alpha \<longrightarrow> c \<le> e) \<and> (alpha < e \<and> e < beta \<longrightarrow> e = c) \<and> (beta \<le> e \<longrightarrow> e \<le> c)"
    and "min beta e \<le> alpha" and "beta \<le> me"
  shows "(min me e \<le> alpha \<longrightarrow> min (min me c) w \<le> min me e)
       \<and> (alpha < min me e \<and> min me e < beta \<longrightarrow> min me e = min (min me c) w)
       \<and> (beta \<le> min me e \<longrightarrow> min me e \<le> min (min me c) w)"
  using assms unfolding min_def by (auto split: if_splits)

lemma min_continue:
  fixes alpha :: "'a :: linorder"
  assumes "alpha < beta" and "(e \<le> alpha \<longrightarrow> c \<le> e) \<and> (alpha < e \<and> e < beta \<longrightarrow> e = c) \<and> (beta \<le> e \<longrightarrow> e \<le> c)"
    and "\<not> min beta e \<le> alpha" and "beta \<le> me"
    and "(r \<le> alpha \<longrightarrow> min (min me e) w \<le> r)
       \<and> (alpha < r \<and> r < min beta e \<longrightarrow> r = min (min me e) w)
       \<and> (min beta e \<le> r \<longrightarrow> r \<le> min (min me e) w)"
    and "r \<le> min me e"
  shows "(r \<le> alpha \<longrightarrow> min (min me c) w \<le> r)
       \<and> (alpha < r \<and> r < beta \<longrightarrow> r = min (min me c) w)
       \<and> (beta \<le> r \<longrightarrow> r \<le> min (min me c) w)"
  using assms unfolding min_def by (auto split: if_splits)


lemma pruning_sound:
  "alpha < beta \<longrightarrow>
     fail_soft alpha beta (spec_minimax_value depth is_maximizing b)
       (fst (minimax depth is_maximizing alpha beta b))"
  "(\<forall>m \<in> set moves. nat m < length b \<and> b ! nat m = CHR '' '') \<and> alpha < beta \<and> max_eval \<le> alpha \<longrightarrow>
     fail_soft alpha beta
       (fold max (map (\<lambda>move. spec_minimax_value (depth + 1) False (b[nat move := CHR ''X''])) moves)
          max_eval)
       (fst (minimax_max depth alpha beta max_eval moves b))"
  "(\<forall>m \<in> set moves. nat m < length b \<and> b ! nat m = CHR '' '') \<and> alpha < beta \<and> beta \<le> min_eval \<longrightarrow>
     fail_soft alpha beta
       (fold min (map (\<lambda>move. spec_minimax_value (depth + 1) True (b[nat move := CHR ''O''])) moves)
          min_eval)
       (fst (minimax_min depth alpha beta min_eval moves b))"
proof (induction depth is_maximizing alpha beta b and depth alpha beta max_eval moves b
    and depth alpha beta min_eval moves b rule: minimax_minimax_max_minimax_min.induct)
  case (1 depth is_maximizing alpha beta b)
  show ?case
  proof
    assume ab: "alpha < beta"
    have av: "\<forall>m \<in> set (get_available_moves b). nat m < length b \<and> b ! nat m = CHR '' ''"
      by (simp add: available_cells)
    have low: "NegInf \<le> alpha"
      by (simp add: less_eq_score_def)
    have high: "beta \<le> PosInf"
      by (cases beta) (simp_all add: less_eq_score_def)
    show "fail_soft alpha beta (spec_minimax_value depth is_maximizing b)
        (fst (minimax depth is_maximizing alpha beta b))"
    proof (cases "check_winner b = Some (Mark (CHR ''X'')) \<or> check_winner b = Some (Mark (CHR ''O''))
        \<or> check_winner b = Some Tie")
      case True
      then show ?thesis
        by (auto simp: minimax.simps spec_minimax_value.simps fail_soft_def)
    next
      case False
      with "1.IH"(1) [OF refl] "1.IH"(2) [OF refl] ab av low high show ?thesis
        by (cases is_maximizing) (simp_all add: minimax.simps spec_minimax_value.simps)
    qed
  qed
next
  case (2 depth alpha beta max_eval b)
  show ?case by (simp add: fail_soft_def)
next
  case (3 depth alpha beta max_eval move moves b)
  show ?case
  proof
    assume pre: "(\<forall>m \<in> set (move # moves). nat m < length b \<and> b ! nat m = CHR '' '') \<and>
      alpha < beta \<and> max_eval \<le> alpha"
    then have ab: "alpha < beta" and me: "max_eval \<le> alpha"
      by simp_all
    let ?b1 = "b[nat move := CHR ''X'']"
    let ?f = "\<lambda>move. spec_minimax_value (depth + 1) False (b[nat move := CHR ''X''])"
    define w where "w = fold max (map ?f moves) NegInf"
    obtain e y where call: "minimax (depth + 1) False alpha beta ?b1 = (e, y)"
      by (cases "minimax (depth + 1) False alpha beta ?b1")
    with minimax_restores [of "depth + 1" False alpha beta ?b1] have y: "y = ?b1"
      by simp
    from pre have b2: "y[nat move := CHR '' ''] = b"
      unfolding y by (intro undo_write) simp
    from "3.IH"(1) ab call have "fail_soft alpha beta (?f move) e"
      by simp
    then have child: "(e \<le> alpha \<longrightarrow> ?f move \<le> e) \<and> (alpha < e \<and> e < beta \<longrightarrow> e = ?f move)
        \<and> (beta \<le> e \<longrightarrow> e \<le> ?f move)"
      by (simp only: fail_soft_def)
    have target: "fold max (map ?f (move # moves)) max_eval = max (max max_eval (?f move)) w"
      using fold_max_bottom [of "map ?f moves" "max (?f move) max_eval"]
      by (simp add: w_def max.commute)
    show "fail_soft alpha beta (fold max (map ?f (move # moves)) max_eval)
        (fst (minimax_max depth alpha beta max_eval (move # moves) b))"
    proof (cases "beta \<le> max alpha e")
      case True
      with call have r: "fst (minimax_max depth alpha beta max_eval (move # moves) b) = max max_eval e"
        by (simp add: Let_def)
      show ?thesis
        unfolding r target fail_soft_def by (rule max_break [OF ab child True me])
    next
      case False
      let ?r = "fst (minimax_max depth (max alpha e) beta (max max_eval e) moves b)"
      from False call b2 have r: "fst (minimax_max depth alpha beta max_eval (move # moves) b) = ?r"
        by (simp add: Let_def)
      from me have "max max_eval e \<le> max alpha e"
        by (rule max.mono) simp
      moreover from False have "max alpha e < beta"
        by (simp only: not_le)
      moreover from pre have "\<forall>m \<in> set moves. nat m < length b \<and> b ! nat m = CHR '' ''"
        by simp
      ultimately
      have "fail_soft (max alpha e) beta (fold max (map ?f moves) (max max_eval e)) ?r"
        using "3.IH"(2) [OF call [symmetric] refl refl refl refl False] unfolding b2 by blast
      then have rest: "(?r \<le> max alpha e \<longrightarrow> max (max max_eval e) w \<le> ?r)
          \<and> (max alpha e < ?r \<and> ?r < beta \<longrightarrow> ?r = max (max max_eval e) w)
          \<and> (beta \<le> ?r \<longrightarrow> ?r \<le> max (max max_eval e) w)"
        using fold_max_bottom [of "map ?f moves" "max max_eval e"]
        by (simp only: fail_soft_def w_def)
      have ge: "max max_eval e \<le> ?r"
        by (rule minimax_max_ge)
      show ?thesis
        unfolding r target fail_soft_def by (rule max_continue [OF ab child False me rest ge])
    qed
  qed
next
  case (4 depth alpha beta min_eval b)
  show ?case by (simp add: fail_soft_def)
next
  case (5 depth alpha beta min_eval move moves b)
  show ?case
  proof
    assume pre: "(\<forall>m \<in> set (move # moves). nat m < length b \<and> b ! nat m = CHR '' '') \<and>
      alpha < beta \<and> beta \<le> min_eval"
    then have ab: "alpha < beta" and me: "beta \<le> min_eval"
      by simp_all
    let ?b1 = "b[nat move := CHR ''O'']"
    let ?f = "\<lambda>move. spec_minimax_value (depth + 1) True (b[nat move := CHR ''O''])"
    define w where "w = fold min (map ?f moves) PosInf"
    obtain e y where call: "minimax (depth + 1) True alpha beta ?b1 = (e, y)"
      by (cases "minimax (depth + 1) True alpha beta ?b1")
    with minimax_restores [of "depth + 1" True alpha beta ?b1] have y: "y = ?b1"
      by simp
    from pre have b2: "y[nat move := CHR '' ''] = b"
      unfolding y by (intro undo_write) simp
    from "5.IH"(1) ab call have "fail_soft alpha beta (?f move) e"
      by simp
    then have child: "(e \<le> alpha \<longrightarrow> ?f move \<le> e) \<and> (alpha < e \<and> e < beta \<longrightarrow> e = ?f move)
        \<and> (beta \<le> e \<longrightarrow> e \<le> ?f move)"
      by (simp only: fail_soft_def)
    have target: "fold min (map ?f (move # moves)) min_eval = min (min min_eval (?f move)) w"
      using fold_min_top [of "map ?f moves" "min (?f move) min_eval"]
      by (simp add: w_def min.commute)
    show "fail_soft alpha beta (fold min (map ?f (move # moves)) min_eval)
        (fst (minimax_min depth alpha beta min_eval (move # moves) b))"
    proof (cases "min beta e \<le> alpha")
      case True
      with call have r: "fst (minimax_min depth alpha beta min_eval (move # moves) b) = min min_eval e"
        by (simp add: Let_def)
      show ?thesis
        unfolding r target fail_soft_def by (rule min_break [OF ab child True me])
    next
      case False
      let ?r = "fst (minimax_min depth alpha (min beta e) (min min_eval e) moves b)"
      from False call b2 have r: "fst (minimax_min depth alpha beta min_eval (move # moves) b) = ?r"
        by (simp add: Let_def)
      from me have "min beta e \<le> min min_eval e"
        by (rule min.mono) simp
      moreover from False have "alpha < min beta e"
        by (simp only: not_le)
      moreover from pre have "\<forall>m \<in> set moves. nat m < length b \<and> b ! nat m = CHR '' ''"
        by simp
      ultimately
      have "fail_soft alpha (min beta e) (fold min (map ?f moves) (min min_eval e)) ?r"
        using "5.IH"(2) [OF call [symmetric] refl refl refl refl False] unfolding b2 by blast
      then have rest: "(?r \<le> alpha \<longrightarrow> min (min min_eval e) w \<le> ?r)
          \<and> (alpha < ?r \<and> ?r < min beta e \<longrightarrow> ?r = min (min min_eval e) w)
          \<and> (min beta e \<le> ?r \<longrightarrow> ?r \<le> min (min min_eval e) w)"
        using fold_min_top [of "map ?f moves" "min min_eval e"]
        by (simp only: fail_soft_def w_def)
      have le: "?r \<le> min min_eval e"
        by (rule minimax_min_le)
      show ?thesis
        unfolding r target fail_soft_def by (rule min_continue [OF ab child False me rest le])
    qed
  qed
qed

lemma minimax_full_window:
  "minimax depth is_maximizing NegInf PosInf b = (spec_minimax_value depth is_maximizing b, b)"
proof -
  have "NegInf < PosInf"
    by (simp add: less_score_def)
  with pruning_sound(1) [of NegInf PosInf depth is_maximizing b]
  have fs: "fail_soft NegInf PosInf (spec_minimax_value depth is_maximizing b)
      (fst (minimax depth is_maximizing NegInf PosInf b))"
    by simp
  have "fst (minimax depth is_maximizing NegInf PosInf b) = spec_minimax_value depth is_maximizing b"
  proof (cases "fst (minimax depth is_maximizing NegInf PosInf b)")
    case NegInf
    with fs show ?thesis
      by (cases "spec_minimax_value depth is_maximizing b")
        (simp_all add: fail_soft_def less_eq_score_def less_score_def)
  next
    case (Fin k)
    with fs show ?thesis
      by (simp add: fail_soft_def less_eq_score_def less_score_def)
  next
    case PosInf
    with fs show ?thesis
      by (cases "spec_minimax_value depth is_maximizing b")
        (simp_all add: fail_soft_def less_eq_score_def less_score_def)
  qed
  with minimax_restores [of depth is_maximizing NegInf PosInf b] show ?thesis
    by (simp add: prod_eq_iff)
qed

lemma fold_max_member: "fold max vs a \<in> insert a (set vs)"
  by (induction vs arbitrary: a) (auto simp: max_def)

lemma fold_min_member: "fold min vs a \<in> insert a (set vs)"
  by (induction vs arbitrary: a) (auto simp: min_def)

lemma fold_max_chosen: "vs \<noteq> [] \<Longrightarrow> fold max vs NegInf \<in> set vs"
proof (cases vs)
  case (Cons v ws)
  have "max v NegInf = v"
    by (cases v) (simp_all add: max_def less_eq_score_def)
  with fold_max_member [of ws v] Cons show ?thesis
    by auto
qed simp

lemma fold_min_chosen: "vs \<noteq> [] \<Longrightarrow> fold min vs PosInf \<in> set vs"
proof (cases vs)
  case (Cons v ws)
  have "min v PosInf = v"
    by (cases v) (simp_all add: min_def less_eq_score_def)
  with fold_min_member [of ws v] Cons show ?thesis
    by auto
qed simp

lemma spec_value_of_finished_game:
  "length b = 9 \<and> set b \<subseteq> {CHR '' '', CHR ''X'', CHR ''O''} \<longrightarrow>
     (\<exists>k t. plies_below is_maximizing b k t \<and>
        (check_winner t = Some (Mark (CHR ''X'')) \<and>
           spec_minimax_value depth is_maximizing b = Fin (10 - (depth + int k))
         \<or> check_winner t = Some (Mark (CHR ''O'')) \<and>
           spec_minimax_value depth is_maximizing b = Fin ((depth + int k) - 10)
         \<or> check_winner t = Some Tie \<and> spec_minimax_value depth is_maximizing b = Fin 0))"
proof (induction depth is_maximizing b rule: spec_minimax_value.induct)
  case (1 depth is_maximizing b)
  show ?case
  proof
    assume proper: "length b = 9 \<and> set b \<subseteq> {CHR '' '', CHR ''X'', CHR ''O''}"
    let ?goal = "\<exists>k t. plies_below is_maximizing b k t \<and>
        (check_winner t = Some (Mark (CHR ''X'')) \<and>
           spec_minimax_value depth is_maximizing b = Fin (10 - (depth + int k))
         \<or> check_winner t = Some (Mark (CHR ''O'')) \<and>
           spec_minimax_value depth is_maximizing b = Fin ((depth + int k) - 10)
         \<or> check_winner t = Some Tie \<and> spec_minimax_value depth is_maximizing b = Fin 0)"
    show ?goal
    proof (cases "check_winner b")
      case (Some w)
      have "w = Mark (CHR ''X'') \<or> w = Mark (CHR ''O'') \<or> w = Tie"
      proof (cases w)
        case (Mark c)
        with Some proper proper_winner [of b c] show ?thesis
          by simp
      qed simp
      with Some have "check_winner b = Some (Mark (CHR ''X'')) \<and>
           spec_minimax_value depth is_maximizing b = Fin (10 - (depth + int 0))
         \<or> check_winner b = Some (Mark (CHR ''O'')) \<and>
           spec_minimax_value depth is_maximizing b = Fin ((depth + int 0) - 10)
         \<or> check_winner b = Some Tie \<and> spec_minimax_value depth is_maximizing b = Fin 0"
        by (auto simp: spec_minimax_value.simps)
      with plies_below.here [of is_maximizing b] show ?thesis
        by blast
    next
      case None
      then have "CHR '' '' \<in> set b"
        by (simp add: check_winner_None_iff)
      with proper have ne: "get_available_moves b \<noteq> []"
        by (simp add: available_nonempty)
      let ?c = "if is_maximizing then CHR ''X'' else CHR ''O''"
      let ?f = "\<lambda>move. spec_minimax_value (depth + 1) (\<not> is_maximizing) (b[nat move := ?c])"
      have "\<exists>move \<in> set (get_available_moves b). spec_minimax_value depth is_maximizing b = ?f move"
      proof (cases is_maximizing)
        case True
        from ne have "fold max (map ?f (get_available_moves b)) NegInf
            \<in> set (map ?f (get_available_moves b))"
          by (intro fold_max_chosen) simp
        moreover have "spec_minimax_value depth is_maximizing b
            = fold max (map ?f (get_available_moves b)) NegInf"
          by (subst spec_minimax_value.simps) (simp add: None True)
        ultimately show ?thesis
          by auto
      next
        case False
        from ne have "fold min (map ?f (get_available_moves b)) PosInf
            \<in> set (map ?f (get_available_moves b))"
          by (intro fold_min_chosen) simp
        moreover have "spec_minimax_value depth is_maximizing b
            = fold min (map ?f (get_available_moves b)) PosInf"
          by (subst spec_minimax_value.simps) (simp add: None False)
        ultimately show ?thesis
          by auto
      qed
      then obtain move where move: "move \<in> set (get_available_moves b)"
        and v: "spec_minimax_value depth is_maximizing b = ?f move"
        by blast
      from proper have proper': "length (b[nat move := ?c]) = 9 \<and>
          set (b[nat move := ?c]) \<subseteq> {CHR '' '', CHR ''X'', CHR ''O''}"
        by (simp add: proper_write)
      have "\<exists>k t. plies_below (\<not> is_maximizing) (b[nat move := ?c]) k t \<and>
        (check_winner t = Some (Mark (CHR ''X'')) \<and> ?f move = Fin (10 - (depth + 1 + int k))
         \<or> check_winner t = Some (Mark (CHR ''O'')) \<and> ?f move = Fin ((depth + 1 + int k) - 10)
         \<or> check_winner t = Some Tie \<and> ?f move = Fin 0)"
      proof (cases is_maximizing)
        case True
        with "1.IH"(1) [of move] None move proper' show ?thesis
          by simp
      next
        case False
        with "1.IH"(2) [of move] None move proper' show ?thesis
          by simp
      qed
      then obtain k t where below: "plies_below (\<not> is_maximizing) (b[nat move := ?c]) k t"
        and leaf: "check_winner t = Some (Mark (CHR ''X'')) \<and> ?f move = Fin (10 - (depth + 1 + int k))
         \<or> check_winner t = Some (Mark (CHR ''O'')) \<and> ?f move = Fin ((depth + 1 + int k) - 10)
         \<or> check_winner t = Some Tie \<and> ?f move = Fin 0"
        by blast
      from None move below have "plies_below is_maximizing b (Suc k) t"
        by (rule plies_below.ply)
      moreover have "depth + 1 + int k = depth + int (Suc k)"
        by simp
      ultimately show ?thesis
        using leaf unfolding v by metis
    qed
  qed
qed

text \<open>
  Claim C3. On every board reached by legal play, at every depth and for every value of
  the other arguments, \<open>minimax\<close> returns \<open>10 - depth\<close> when \<open>'X'\<close> occupies a
  line, \<open>depth - 10\<close> when \<open>'O'\<close> does, and 0 when no line is occupied and no cell
  is empty, leaving the board as it was. Hence of two won positions the one reached at
  the smaller depth scores strictly higher when \<open>'X'\<close> has won, and strictly lower when
  \<open>'O'\<close> has won. The depth of a finished game is the depth of the root plus the
  number of plies played below the root: called with the default bounds on any such board,
  finished or not, \<open>minimax\<close> returns the value of the specification, in which every
  move is scored one ply deeper than the position it is made on, and that value is the
  score of a finished board \<open>t\<close> lying some \<open>k\<close> plies below the root, taken at
  \<open>depth + k\<close>: \<open>10 - (depth + k)\<close> when \<open>check_winner\<close> gives \<open>'X'\<close> on
  \<open>t\<close>, \<open>(depth + k) - 10\<close> when it gives \<open>'O'\<close>, and 0 when it gives a tie.
\<close>

theorem minimax_terminal_scores:
  assumes "legal_play player b" and "legal_play player' b'"
  shows "((\<exists>combo \<in> set wins. occupies b (CHR ''X'') combo) \<longrightarrow>
            minimax depth is_maximizing alpha beta b = (Fin (10 - depth), b))
       \<and> ((\<exists>combo \<in> set wins. occupies b (CHR ''O'') combo) \<longrightarrow>
            minimax depth is_maximizing alpha beta b = (Fin (depth - 10), b))
       \<and> (\<not> (\<exists>combo \<in> set wins. \<exists>c. occupies b c combo) \<and> CHR '' '' \<notin> set b \<longrightarrow>
            minimax depth is_maximizing alpha beta b = (Fin 0, b))
       \<and> ((\<exists>combo \<in> set wins. occupies b (CHR ''X'') combo) \<and>
          (\<exists>combo \<in> set wins. occupies b' (CHR ''X'') combo) \<and> depth < depth' \<longrightarrow>
            fst (minimax depth' is_maximizing' alpha' beta' b')
              < fst (minimax depth is_maximizing alpha beta b))
       \<and> ((\<exists>combo \<in> set wins. occupies b (CHR ''O'') combo) \<and>
          (\<exists>combo \<in> set wins. occupies b' (CHR ''O'') combo) \<and> depth < depth' \<longrightarrow>
            fst (minimax depth is_maximizing alpha beta b)
              < fst (minimax depth' is_maximizing' alpha' beta' b'))
       \<and> minimax depth is_maximizing NegInf PosInf b = (spec_minimax_value depth is_maximizing b, b)
       \<and> (\<exists>k t. plies_below is_maximizing b k t \<and>
            (check_winner t = Some (Mark (CHR ''X'')) \<and>
               fst (minimax depth is_maximizing NegInf PosInf b) = Fin (10 - (depth + int k))
             \<or> check_winner t = Some (Mark (CHR ''O'')) \<and>
               fst (minimax depth is_maximizing NegInf PosInf b) = Fin ((depth + int k) - 10)
             \<or> check_winner t = Some Tie \<and>
               fst (minimax depth is_maximizing NegInf PosInf b) = Fin 0))"
proof -
  have x: "check_winner c = Some (Mark (CHR ''X''))"
    if "legal_play p c" "\<exists>combo \<in> set wins. occupies c (CHR ''X'') combo" for p c
    using that legal_play_winner by blast
  have o: "check_winner c = Some (Mark (CHR ''O''))"
    if "legal_play p c" "\<exists>combo \<in> set wins. occupies c (CHR ''O'') combo" for p c
    using that legal_play_winner by blast
  have t: "check_winner b = Some Tie"
    if "\<not> (\<exists>combo \<in> set wins. \<exists>c. occupies b c combo)" "CHR '' '' \<notin> set b"
  proof -
    from that(1) have "check_combos b wins = None"
      by (simp only: check_combos_None) blast
    with that(2) show ?thesis by (simp add: check_winner_def)
  qed
  have 1: "minimax depth is_maximizing alpha beta b = (Fin (10 - depth), b)"
    if "\<exists>combo \<in> set wins. occupies b (CHR ''X'') combo"
    using x [OF assms(1) that] by (rule minimax_terminal)
  have 2: "minimax depth is_maximizing alpha beta b = (Fin (depth - 10), b)"
    if "\<exists>combo \<in> set wins. occupies b (CHR ''O'') combo"
    using o [OF assms(1) that] by (rule minimax_terminal)
  have 3: "minimax depth is_maximizing alpha beta b = (Fin 0, b)"
    if "\<not> (\<exists>combo \<in> set wins. \<exists>c. occupies b c combo) \<and> CHR '' '' \<notin> set b"
    using t that by (blast intro: minimax_terminal)
  have 4: "fst (minimax depth' is_maximizing' alpha' beta' b')
              < fst (minimax depth is_maximizing alpha beta b)"
    if "\<exists>combo \<in> set wins. occupies b (CHR ''X'') combo"
       "\<exists>combo \<in> set wins. occupies b' (CHR ''X'') combo" "depth < depth'"
    using x [OF assms(1) that(1)] x [OF assms(2) that(2)] that(3)
    by (simp only: minimax_terminal fst_conv Fin_less)
  have 5: "fst (minimax depth is_maximizing alpha beta b)
              < fst (minimax depth' is_maximizing' alpha' beta' b')"
    if "\<exists>combo \<in> set wins. occupies b (CHR ''O'') combo"
       "\<exists>combo \<in> set wins. occupies b' (CHR ''O'') combo" "depth < depth'"
    using o [OF assms(1) that(1)] o [OF assms(2) that(2)] that(3)
    by (simp only: minimax_terminal fst_conv Fin_less)
  have 6: "minimax depth is_maximizing NegInf PosInf b = (spec_minimax_value depth is_maximizing b, b)"
    by (rule minimax_full_window)
  from legal_play_invariant [OF assms(1)]
  have "length b = 9 \<and> set b \<subseteq> {CHR '' '', CHR ''X'', CHR ''O''}"
    by simp
  with spec_value_of_finished_game [of b is_maximizing depth]
  have 7: "\<exists>k t. plies_below is_maximizing b k t \<and>
            (check_winner t = Some (Mark (CHR ''X'')) \<and>
               fst (minimax depth is_maximizing NegInf PosInf b) = Fin (10 - (depth + int k))
             \<or> check_winner t = Some (Mark (CHR ''O'')) \<and>
               fst (minimax depth is_maximizing NegInf PosInf b) = Fin ((depth + int k) - 10)
             \<or> check_winner t = Some Tie \<and>
               fst (minimax depth is_maximizing NegInf PosInf b) = Fin 0)"
    unfolding 6 fst_conv by (rule mp)
  from 1 2 3 4 5 have "((\<exists>combo \<in> set wins. occupies b (CHR ''X'') combo) \<longrightarrow>
            minimax depth is_maximizing alpha beta b = (Fin (10 - depth), b))
       \<and> ((\<exists>combo \<in> set wins. occupies b (CHR ''O'') combo) \<longrightarrow>
            minimax depth is_maximizing alpha beta b = (Fin (depth - 10), b))
       \<and> (\<not> (\<exists>combo \<in> set wins. \<exists>c. occupies b c combo) \<and> CHR '' '' \<notin> set b \<longrightarrow>
            minimax depth is_maximizing alpha beta b = (Fin 0, b))
       \<and> ((\<exists>combo \<in> set wins. occupies b (CHR ''X'') combo) \<and>
          (\<exists>combo \<in> set wins. occupies b' (CHR ''X'') combo) \<and> depth < depth' \<longrightarrow>
            fst (minimax depth' is_maximizing' alpha' beta' b')
              < fst (minimax depth is_maximizing alpha beta b))
       \<and> ((\<exists>combo \<in> set wins. occupies b (CHR ''O'') combo) \<and>
          (\<exists>combo \<in> set wins. occupies b' (CHR ''O'') combo) \<and> depth < depth' \<longrightarrow>
            fst (minimax depth is_maximizing alpha beta b)
              < fst (minimax depth' is_maximizing' alpha' beta' b'))"
    by blast
  then show ?thesis
    by (elim conjE, intro conjI) (assumption | rule 6 | rule 7)+
qed

lemma legal_play_step:
  assumes "legal_play player b" "check_winner b = None" "is_valid_move b position"
    and "player' = (if player = CHR ''X'' then CHR ''O'' else CHR ''X'')"
    and "b' = b[nat position := player]"
  shows "legal_play player' b'"
  using legal_play.move [OF assms(1-3)] assms(3-5) by (simp add: make_move_def)

lemma legal_play_XXOO: "legal_play (CHR ''X'') ''XX OO    ''"
proof -
  note defs = check_winner_def wins_def is_valid_move_def
  have 0: "legal_play (CHR ''X'') ''         ''"
    using legal_play.start by (simp add: reset_board_def eval_nat_numeral)
  have 1: "legal_play (CHR ''O'') ''X        ''"
    by (rule legal_play_step [OF 0, of 0]) (simp_all add: defs)
  have 2: "legal_play (CHR ''X'') ''X  O     ''"
    by (rule legal_play_step [OF 1, of 3]) (simp_all add: defs)
  have 3: "legal_play (CHR ''O'') ''XX O     ''"
    by (rule legal_play_step [OF 2, of 1]) (simp_all add: defs)
  show ?thesis
    by (rule legal_play_step [OF 3, of 4]) (simp_all add: defs)
qed

lemma legal_play_XXXOO: "legal_play (CHR ''O'') ''XXXOO    ''"
  by (rule legal_play_step [OF legal_play_XXOO, of 2])
    (simp_all add: check_winner_def wins_def is_valid_move_def)

lemma legal_play_XXOOOX: "legal_play (CHR ''X'') ''XX OOO  X''"
proof -
  note defs = check_winner_def wins_def is_valid_move_def
  have 5: "legal_play (CHR ''O'') ''XX OO   X''"
    by (rule legal_play_step [OF legal_play_XXOO, of 8]) (simp_all add: defs)
  show ?thesis
    by (rule legal_play_step [OF 5, of 5]) (simp_all add: defs)
qed

lemma legal_play_tie: "legal_play (CHR ''O'') ''XOXXOOOXX''"
proof -
  note defs = check_winner_def wins_def is_valid_move_def
  have 0: "legal_play (CHR ''X'') ''         ''"
    using legal_play.start by (simp add: reset_board_def eval_nat_numeral)
  have 1: "legal_play (CHR ''O'') ''X        ''"
    by (rule legal_play_step [OF 0, of 0]) (simp_all add: defs)
  have 2: "legal_play (CHR ''X'') ''XO       ''"
    by (rule legal_play_step [OF 1, of 1]) (simp_all add: defs)
  have 3: "legal_play (CHR ''O'') ''XOX      ''"
    by (rule legal_play_step [OF 2, of 2]) (simp_all add: defs)
  have 4: "legal_play (CHR ''X'') ''XOX O    ''"
    by (rule legal_play_step [OF 3, of 4]) (simp_all add: defs)
  have 5: "legal_play (CHR ''O'') ''XOXXO    ''"
    by (rule legal_play_step [OF 4, of 3]) (simp_all add: defs)
  have 6: "legal_play (CHR ''X'') ''XOXXOO   ''"
    by (rule legal_play_step [OF 5, of 5]) (simp_all add: defs)
  have 7: "legal_play (CHR ''O'') ''XOXXOO X ''"
    by (rule legal_play_step [OF 6, of 7]) (simp_all add: defs)
  have 8: "legal_play (CHR ''X'') ''XOXXOOOX ''"
    by (rule legal_play_step [OF 7, of 6]) (simp_all add: defs)
  show ?thesis
    by (rule legal_play_step [OF 8, of 8]) (simp_all add: defs)
qed

lemma legal_play_XOXO: "legal_play (CHR ''X'') ''XO  X   O''"
proof -
  note defs = check_winner_def wins_def is_valid_move_def
  have 0: "legal_play (CHR ''X'') ''         ''"
    using legal_play.start by (simp add: reset_board_def eval_nat_numeral)
  have 1: "legal_play (CHR ''O'') ''X        ''"
    by (rule legal_play_step [OF 0, of 0]) (simp_all add: defs)
  have 2: "legal_play (CHR ''X'') ''XO       ''"
    by (rule legal_play_step [OF 1, of 1]) (simp_all add: defs)
  have 3: "legal_play (CHR ''O'') ''XO  X    ''"
    by (rule legal_play_step [OF 2, of 4]) (simp_all add: defs)
  show ?thesis
    by (rule legal_play_step [OF 3, of 8]) (simp_all add: defs)
qed

lemma spec_value_XXOO: "spec_minimax_value 0 True ''XX OO    '' = Fin 9"
  by code_simp

lemma spec_value_XXOO_2: "spec_minimax_value 2 True ''XX OO    '' = Fin 7"
  by code_simp

lemma spec_value_XOXO: "spec_minimax_value 0 True ''XO  X   O'' = Fin 7"
  by code_simp

theorem minimax_terminal_scores_witness:
  "legal_play (CHR ''O'') ''XXXOO    ''
   \<and> occupies ''XXXOO    '' (CHR ''X'') [0, 1, 2]
   \<and> minimax 3 False NegInf PosInf ''XXXOO    '' = (Fin 7, ''XXXOO    '')
   \<and> fst (minimax 5 True NegInf PosInf ''XXXOO    '') < fst (minimax 3 False NegInf PosInf ''XXXOO    '')
   \<and> legal_play (CHR ''X'') ''XX OOO  X''
   \<and> occupies ''XX OOO  X'' (CHR ''O'') [3, 4, 5]
   \<and> minimax 4 True NegInf PosInf ''XX OOO  X'' = (Fin (- 6), ''XX OOO  X'')
   \<and> fst (minimax 4 True NegInf PosInf ''XX OOO  X'') < fst (minimax 6 True NegInf PosInf ''XX OOO  X'')
   \<and> legal_play (CHR ''O'') ''XOXXOOOXX''
   \<and> minimax 8 False NegInf PosInf ''XOXXOOOXX'' = (Fin 0, ''XOXXOOOXX'')
   \<and> legal_play (CHR ''X'') ''XX OO    ''
   \<and> minimax 0 True NegInf PosInf ''XX OO    '' = (Fin 9, ''XX OO    '')
   \<and> minimax 2 True NegInf PosInf ''XX OO    '' = (Fin 7, ''XX OO    '')
   \<and> legal_play (CHR ''X'') ''XO  X   O''
   \<and> minimax 0 True NegInf PosInf ''XO  X   O'' = (Fin 7, ''XO  X   O'')
   \<and> (\<exists>k t. plies_below True ''XX OO    '' k t \<and>
        (check_winner t = Some (Mark (CHR ''X'')) \<and> Fin 7 = Fin (10 - (2 + int k))
         \<or> check_winner t = Some (Mark (CHR ''O'')) \<and> Fin 7 = Fin ((2 + int k) - 10)
         \<or> check_winner t = Some Tie \<and> Fin 7 = Fin 0))"
proof -
  have wx: "\<exists>combo \<in> set wins. occupies ''XXXOO    '' (CHR ''X'') combo"
    by (simp add: wins_def)
  have wo: "\<exists>combo \<in> set wins. occupies ''XX OOO  X'' (CHR ''O'') combo"
    by (simp add: wins_def)
  have wt: "\<not> (\<exists>combo \<in> set wins. \<exists>c. occupies ''XOXXOOOXX'' c combo) \<and> CHR '' '' \<notin> set ''XOXXOOOXX''"
    by (simp add: wins_def)
  have lt: "(3::int) < 5" "(4::int) < 6"
    by simp_all
  note X = minimax_terminal_scores [OF legal_play_XXXOO legal_play_XXXOO,
      of 3 False NegInf PosInf 5 True NegInf PosInf]
  note O = minimax_terminal_scores [OF legal_play_XXOOOX legal_play_XXOOOX,
      of 4 True NegInf PosInf 6 True NegInf PosInf]
  note T = minimax_terminal_scores [OF legal_play_tie legal_play_tie,
      of 8 False NegInf PosInf 8 False NegInf PosInf]
  note R0 = minimax_terminal_scores [OF legal_play_XXOO legal_play_XXOO,
      of 0 True NegInf PosInf 0 True NegInf PosInf]
  note R2 = minimax_terminal_scores [OF legal_play_XXOO legal_play_XXOO,
      of 2 True NegInf PosInf 2 True NegInf PosInf]
  note S0 = minimax_terminal_scores [OF legal_play_XOXO legal_play_XOXO,
      of 0 True NegInf PosInf 0 True NegInf PosInf]
  have x: "minimax 3 False NegInf PosInf ''XXXOO    '' = (Fin (10 - 3), ''XXXOO    '')"
    by (rule X [THEN conjunct1, THEN mp, OF wx])
  have x': "fst (minimax 5 True NegInf PosInf ''XXXOO    '')
      < fst (minimax 3 False NegInf PosInf ''XXXOO    '')"
    by (rule X [THEN conjunct2, THEN conjunct2, THEN conjunct2, THEN conjunct1, THEN mp,
          OF conjI [OF wx conjI [OF wx lt(1)]]])
  have o: "minimax 4 True NegInf PosInf ''XX OOO  X'' = (Fin (4 - 10), ''XX OOO  X'')"
    by (rule O [THEN conjunct2, THEN conjunct1, THEN mp, OF wo])
  have o': "fst (minimax 4 True NegInf PosInf ''XX OOO  X'')
      < fst (minimax 6 True NegInf PosInf ''XX OOO  X'')"
    by (rule O [THEN conjunct2, THEN conjunct2, THEN conjunct2, THEN conjunct2, THEN conjunct1,
          THEN mp, OF conjI [OF wo conjI [OF wo lt(2)]]])
  have t: "minimax 8 False NegInf PosInf ''XOXXOOOXX'' = (Fin 0, ''XOXXOOOXX'')"
    by (rule T [THEN conjunct2, THEN conjunct2, THEN conjunct1, THEN mp, OF wt])
  have r0: "minimax 0 True NegInf PosInf ''XX OO    '' = (Fin 9, ''XX OO    '')"
    using R0 [THEN conjunct2, THEN conjunct2, THEN conjunct2, THEN conjunct2, THEN conjunct2,
        THEN conjunct1]
    by (simp only: spec_value_XXOO)
  have r2: "minimax 2 True NegInf PosInf ''XX OO    '' = (Fin 7, ''XX OO    '')"
    using R2 [THEN conjunct2, THEN conjunct2, THEN conjunct2, THEN conjunct2, THEN conjunct2,
        THEN conjunct1]
    by (simp only: spec_value_XXOO_2)
  have s0: "minimax 0 True NegInf PosInf ''XO  X   O'' = (Fin 7, ''XO  X   O'')"
    using S0 [THEN conjunct2, THEN conjunct2, THEN conjunct2, THEN conjunct2, THEN conjunct2,
        THEN conjunct1]
    by (simp only: spec_value_XOXO)
  have p2: "\<exists>k t. plies_below True ''XX OO    '' k t \<and>
        (check_winner t = Some (Mark (CHR ''X'')) \<and> Fin 7 = Fin (10 - (2 + int k))
         \<or> check_winner t = Some (Mark (CHR ''O'')) \<and> Fin 7 = Fin ((2 + int k) - 10)
         \<or> check_winner t = Some Tie \<and> Fin 7 = Fin 0)"
    using R2 [THEN conjunct2, THEN conjunct2, THEN conjunct2, THEN conjunct2, THEN conjunct2,
        THEN conjunct2]
    unfolding r2 fst_conv .
  have occ: "occupies ''XXXOO    '' (CHR ''X'') [0, 1, 2]" "occupies ''XX OOO  X'' (CHR ''O'') [3, 4, 5]"
    by simp_all
  have old: "legal_play (CHR ''O'') ''XXXOO    ''
   \<and> occupies ''XXXOO    '' (CHR ''X'') [0, 1, 2]
   \<and> minimax 3 False NegInf PosInf ''XXXOO    '' = (Fin 7, ''XXXOO    '')
   \<and> fst (minimax 5 True NegInf PosInf ''XXXOO    '') < fst (minimax 3 False NegInf PosInf ''XXXOO    '')
   \<and> legal_play (CHR ''X'') ''XX OOO  X''
   \<and> occupies ''XX OOO  X'' (CHR ''O'') [3, 4, 5]
   \<and> minimax 4 True NegInf PosInf ''XX OOO  X'' = (Fin (- 6), ''XX OOO  X'')
   \<and> fst (minimax 4 True NegInf PosInf ''XX OOO  X'') < fst (minimax 6 True NegInf PosInf ''XX OOO  X'')
   \<and> legal_play (CHR ''O'') ''XOXXOOOXX''
   \<and> minimax 8 False NegInf PosInf ''XOXXOOOXX'' = (Fin 0, ''XOXXOOOXX'')"
    using x x' o o' t occ legal_play_XXXOO legal_play_XXOOOX legal_play_tie
    by (simp only: diff_numeral_simps) simp
  from old legal_play_XXOO r0 r2 legal_play_XOXO s0 p2 show ?thesis
    by (elim conjE, intro conjI) assumption+
qed


section \<open>The move chosen by the search\<close>

lemma max_Fin: "x \<noteq> PosInf \<Longrightarrow> \<exists>j. max x (Fin k) = Fin j"
  by (cases x) (auto simp: max_def less_eq_score_def)

lemma min_Fin: "x \<noteq> NegInf \<Longrightarrow> \<exists>j. min x (Fin k) = Fin j"
  by (cases x) (auto simp: min_def less_eq_score_def)

lemma NegInf_less_Fin [simp]: "NegInf < Fin k" "Fin k < PosInf" "\<not> Fin k < NegInf" "\<not> PosInf < Fin k"
  by (simp_all add: less_score_def)

lemma minimax_finite:
  "length b = 9 \<and> set b \<subseteq> {CHR '' '', CHR ''X'', CHR ''O''} \<longrightarrow>
     (\<exists>k. fst (minimax depth is_maximizing alpha beta b) = Fin k)"
  "length b = 9 \<and> set b \<subseteq> {CHR '' '', CHR ''X'', CHR ''O''} \<and>
   (\<forall>m \<in> set moves. b ! nat m = CHR '' '') \<and>
   max_eval \<noteq> PosInf \<and> (moves = [] \<longrightarrow> max_eval \<noteq> NegInf) \<longrightarrow>
     (\<exists>k. fst (minimax_max depth alpha beta max_eval moves b) = Fin k)"
  "length b = 9 \<and> set b \<subseteq> {CHR '' '', CHR ''X'', CHR ''O''} \<and>
   (\<forall>m \<in> set moves. b ! nat m = CHR '' '') \<and>
   min_eval \<noteq> NegInf \<and> (moves = [] \<longrightarrow> min_eval \<noteq> PosInf) \<longrightarrow>
     (\<exists>k. fst (minimax_min depth alpha beta min_eval moves b) = Fin k)"
proof (induction depth is_maximizing alpha beta b and depth alpha beta max_eval moves b
    and depth alpha beta min_eval moves b rule: minimax_minimax_max_minimax_min.induct)
  case (1 depth is_maximizing alpha beta b)
  show ?case
  proof
    assume proper: "length b = 9 \<and> set b \<subseteq> {CHR '' '', CHR ''X'', CHR ''O''}"
    show "\<exists>k. fst (minimax depth is_maximizing alpha beta b) = Fin k"
    proof (cases "check_winner b")
      case None
      then have "CHR '' '' \<in> set b"
        by (simp add: check_winner_None_iff)
      with proper have ne: "get_available_moves b \<noteq> []"
        by (simp add: available_nonempty)
      have av: "\<forall>m \<in> set (get_available_moves b). b ! nat m = CHR '' ''"
        by (simp add: available_cells)
      from "1.IH"(1) [OF refl] "1.IH"(2) [OF refl] None proper ne av show ?thesis
        by (cases is_maximizing) (simp_all add: minimax.simps)
    next
      case (Some w)
      show ?thesis
      proof (cases w)
        case (Mark c)
        with Some proper proper_winner have "c = CHR ''X'' \<or> c = CHR ''O''"
          by blast
        with Some Mark show ?thesis
          by (auto simp: minimax.simps)
      next
        case Tie
        with Some show ?thesis
          by (simp add: minimax.simps)
      qed
    qed
  qed
next
  case (2 depth alpha beta max_eval b)
  show ?case by (cases max_eval) simp_all
next
  case (3 depth alpha beta max_eval move moves b)
  show ?case
  proof
    assume pre: "length b = 9 \<and> set b \<subseteq> {CHR '' '', CHR ''X'', CHR ''O''} \<and>
      (\<forall>m \<in> set (move # moves). b ! nat m = CHR '' '') \<and>
      max_eval \<noteq> PosInf \<and> (move # moves = [] \<longrightarrow> max_eval \<noteq> NegInf)"
    let ?b1 = "b[nat move := CHR ''X'']"
    obtain e y where call: "minimax (depth + 1) False alpha beta ?b1 = (e, y)"
      by (cases "minimax (depth + 1) False alpha beta ?b1")
    with minimax_restores [of "depth + 1" False alpha beta ?b1] have y: "y = ?b1"
      by simp
    from pre have b2: "y[nat move := CHR '' ''] = b"
      unfolding y by (intro undo_write) simp
    from pre have "length ?b1 = 9 \<and> set ?b1 \<subseteq> {CHR '' '', CHR ''X'', CHR ''O''}"
      by (simp add: proper_write)
    with "3.IH"(1) call obtain k where e: "e = Fin k"
      by auto
    from pre max_Fin obtain j where j: "max max_eval (Fin k) = Fin j"
      by blast
    from "3.IH"(2) [OF call [symmetric] refl refl refl refl] pre b2 e j
    have "\<not> beta \<le> max alpha e \<Longrightarrow>
        \<exists>k. fst (minimax_max depth (max alpha e) beta (Fin j) moves b) = Fin k"
      by simp
    with call b2 e j show "\<exists>k. fst (minimax_max depth alpha beta max_eval (move # moves) b) = Fin k"
      by (simp add: Let_def)
  qed
next
  case (4 depth alpha beta min_eval b)
  show ?case by (cases min_eval) simp_all
next
  case (5 depth alpha beta min_eval move moves b)
  show ?case
  proof
    assume pre: "length b = 9 \<and> set b \<subseteq> {CHR '' '', CHR ''X'', CHR ''O''} \<and>
      (\<forall>m \<in> set (move # moves). b ! nat m = CHR '' '') \<and>
      min_eval \<noteq> NegInf \<and> (move # moves = [] \<longrightarrow> min_eval \<noteq> PosInf)"
    let ?b1 = "b[nat move := CHR ''O'']"
    obtain e y where call: "minimax (depth + 1) True alpha beta ?b1 = (e, y)"
      by (cases "minimax (depth + 1) True alpha beta ?b1")
    with minimax_restores [of "depth + 1" True alpha beta ?b1] have y: "y = ?b1"
      by simp
    from pre have b2: "y[nat move := CHR '' ''] = b"
      unfolding y by (intro undo_write) simp
    from pre have "length ?b1 = 9 \<and> set ?b1 \<subseteq> {CHR '' '', CHR ''X'', CHR ''O''}"
      by (simp add: proper_write)
    with "5.IH"(1) call obtain k where e: "e = Fin k"
      by auto
    from pre min_Fin obtain j where j: "min min_eval (Fin k) = Fin j"
      by blast
    from "5.IH"(2) [OF call [symmetric] refl refl refl refl] pre b2 e j
    have "\<not> min beta e \<le> alpha \<Longrightarrow>
        \<exists>k. fst (minimax_min depth alpha (min beta e) (Fin j) moves b) = Fin k"
      by simp
    with call b2 e j show "\<exists>k. fst (minimax_min depth alpha beta min_eval (move # moves) b) = Fin k"
      by (simp add: Let_def)
  qed
qed


lemma best_move_loop_step:
  assumes "nat move < length b \<longrightarrow> b ! nat move = CHR '' ''"
  shows "best_move_loop player best_score best_move (move # moves) b =
     (if player = CHR ''X'' \<and> move_score player b move > best_score
      then best_move_loop player (move_score player b move) move moves b
      else if player = CHR ''O'' \<and> move_score player b move < best_score
      then best_move_loop player (move_score player b move) move moves b
      else best_move_loop player best_score best_move moves b)"
proof -
  let ?b1 = "b[nat move := player]"
  obtain e y where call: "minimax 0 (player = CHR ''O'') NegInf PosInf ?b1 = (e, y)"
    by (cases "minimax 0 (player = CHR ''O'') NegInf PosInf ?b1")
  with minimax_restores [of 0 "player = CHR ''O''" NegInf PosInf ?b1] have y: "y = ?b1"
    by simp
  from assms have b2: "y[nat move := CHR '' ''] = b"
    unfolding y by (rule undo_write)
  show ?thesis
    by (simp only: best_move_loop.simps call Let_def prod.case fst_conv b2)
qed

declare best_move_loop.simps(2) [simp del]

lemma best_move_loop_X:
  assumes "\<forall>m \<in> set moves. nat m < length b \<longrightarrow> b ! nat m = CHR '' ''"
  shows "\<exists>r. best_move_loop (CHR ''X'') best_score best_move moves b = (r, b) \<and>
    (r = best_move \<and> (\<forall>m \<in> set moves. move_score (CHR ''X'') b m \<le> best_score) \<or>
     (\<exists>pre post. moves = pre @ r # post \<and> best_score < move_score (CHR ''X'') b r \<and>
        (\<forall>m \<in> set pre. move_score (CHR ''X'') b m < move_score (CHR ''X'') b r) \<and>
        (\<forall>m \<in> set post. move_score (CHR ''X'') b m \<le> move_score (CHR ''X'') b r)))"
  using assms
proof (induction moves arbitrary: best_score best_move)
  case Nil
  show ?case by simp
next
  case (Cons move moves)
  let ?s = "move_score (CHR ''X'') b"
  from Cons.prems have cell: "nat move < length b \<longrightarrow> b ! nat move = CHR '' ''"
    and rest: "\<forall>m \<in> set moves. nat m < length b \<longrightarrow> b ! nat m = CHR '' ''"
    by simp_all
  show ?case
  proof (cases "best_score < ?s move")
    case True
    from Cons.IH [OF rest, of "?s move" move] obtain r
      where r: "best_move_loop (CHR ''X'') (?s move) move moves b = (r, b)"
        and alt: "r = move \<and> (\<forall>m \<in> set moves. ?s m \<le> ?s move) \<or>
          (\<exists>pre post. moves = pre @ r # post \<and> ?s move < ?s r \<and>
            (\<forall>m \<in> set pre. ?s m < ?s r) \<and> (\<forall>m \<in> set post. ?s m \<le> ?s r))"
      by blast
    from r True have res: "best_move_loop (CHR ''X'') best_score best_move (move # moves) b = (r, b)"
      by (simp add: best_move_loop_step [OF cell])
    from alt have "\<exists>pre post. move # moves = pre @ r # post \<and> best_score < ?s r \<and>
            (\<forall>m \<in> set pre. ?s m < ?s r) \<and> (\<forall>m \<in> set post. ?s m \<le> ?s r)"
    proof
      assume a: "r = move \<and> (\<forall>m \<in> set moves. ?s m \<le> ?s move)"
      with True have "move # moves = [] @ r # moves \<and> best_score < ?s r \<and>
            (\<forall>m \<in> set []. ?s m < ?s r) \<and> (\<forall>m \<in> set moves. ?s m \<le> ?s r)"
        by simp
      then show ?thesis by blast
    next
      assume "\<exists>pre post. moves = pre @ r # post \<and> ?s move < ?s r \<and>
            (\<forall>m \<in> set pre. ?s m < ?s r) \<and> (\<forall>m \<in> set post. ?s m \<le> ?s r)"
      then obtain pre post where p: "moves = pre @ r # post" "?s move < ?s r"
            "\<forall>m \<in> set pre. ?s m < ?s r" "\<forall>m \<in> set post. ?s m \<le> ?s r"
        by blast
      with True have "move # moves = (move # pre) @ r # post \<and> best_score < ?s r \<and>
            (\<forall>m \<in> set (move # pre). ?s m < ?s r) \<and> (\<forall>m \<in> set post. ?s m \<le> ?s r)"
        by auto
      then show ?thesis by blast
    qed
    with res show ?thesis by blast
  next
    case False
    from Cons.IH [OF rest, of best_score best_move] obtain r
      where r: "best_move_loop (CHR ''X'') best_score best_move moves b = (r, b)"
        and alt: "r = best_move \<and> (\<forall>m \<in> set moves. ?s m \<le> best_score) \<or>
          (\<exists>pre post. moves = pre @ r # post \<and> best_score < ?s r \<and>
            (\<forall>m \<in> set pre. ?s m < ?s r) \<and> (\<forall>m \<in> set post. ?s m \<le> ?s r))"
      by blast
    from r False have res: "best_move_loop (CHR ''X'') best_score best_move (move # moves) b = (r, b)"
      by (simp add: best_move_loop_step [OF cell])
    from alt have "r = best_move \<and> (\<forall>m \<in> set (move # moves). ?s m \<le> best_score) \<or>
          (\<exists>pre post. move # moves = pre @ r # post \<and> best_score < ?s r \<and>
            (\<forall>m \<in> set pre. ?s m < ?s r) \<and> (\<forall>m \<in> set post. ?s m \<le> ?s r))"
    proof
      assume "r = best_move \<and> (\<forall>m \<in> set moves. ?s m \<le> best_score)"
      with False show ?thesis by auto
    next
      assume "\<exists>pre post. moves = pre @ r # post \<and> best_score < ?s r \<and>
            (\<forall>m \<in> set pre. ?s m < ?s r) \<and> (\<forall>m \<in> set post. ?s m \<le> ?s r)"
      then obtain pre post where p: "moves = pre @ r # post" "best_score < ?s r"
            "\<forall>m \<in> set pre. ?s m < ?s r" "\<forall>m \<in> set post. ?s m \<le> ?s r"
        by blast
      with False have "move # moves = (move # pre) @ r # post \<and> best_score < ?s r \<and>
            (\<forall>m \<in> set (move # pre). ?s m < ?s r) \<and> (\<forall>m \<in> set post. ?s m \<le> ?s r)"
        by auto
      then show ?thesis by blast
    qed
    with res show ?thesis by blast
  qed
qed

lemma best_move_loop_O:
  assumes "\<forall>m \<in> set moves. nat m < length b \<longrightarrow> b ! nat m = CHR '' ''"
  shows "\<exists>r. best_move_loop (CHR ''O'') best_score best_move moves b = (r, b) \<and>
    (r = best_move \<and> (\<forall>m \<in> set moves. best_score \<le> move_score (CHR ''O'') b m) \<or>
     (\<exists>pre post. moves = pre @ r # post \<and> move_score (CHR ''O'') b r < best_score \<and>
        (\<forall>m \<in> set pre. move_score (CHR ''O'') b r < move_score (CHR ''O'') b m) \<and>
        (\<forall>m \<in> set post. move_score (CHR ''O'') b r \<le> move_score (CHR ''O'') b m)))"
  using assms
proof (induction moves arbitrary: best_score best_move)
  case Nil
  show ?case by simp
next
  case (Cons move moves)
  let ?s = "move_score (CHR ''O'') b"
  from Cons.prems have cell: "nat move < length b \<longrightarrow> b ! nat move = CHR '' ''"
    and rest: "\<forall>m \<in> set moves. nat m < length b \<longrightarrow> b ! nat m = CHR '' ''"
    by simp_all
  show ?case
  proof (cases "?s move < best_score")
    case True
    from Cons.IH [OF rest, of "?s move" move] obtain r
      where r: "best_move_loop (CHR ''O'') (?s move) move moves b = (r, b)"
        and alt: "r = move \<and> (\<forall>m \<in> set moves. ?s move \<le> ?s m) \<or>
          (\<exists>pre post. moves = pre @ r # post \<and> ?s r < ?s move \<and>
            (\<forall>m \<in> set pre. ?s r < ?s m) \<and> (\<forall>m \<in> set post. ?s r \<le> ?s m))"
      by blast
    from r True have res: "best_move_loop (CHR ''O'') best_score best_move (move # moves) b = (r, b)"
      by (simp add: best_move_loop_step [OF cell])
    from alt have "\<exists>pre post. move # moves = pre @ r # post \<and> ?s r < best_score \<and>
            (\<forall>m \<in> set pre. ?s r < ?s m) \<and> (\<forall>m \<in> set post. ?s r \<le> ?s m)"
    proof
      assume a: "r = move \<and> (\<forall>m \<in> set moves. ?s move \<le> ?s m)"
      with True have "move # moves = [] @ r # moves \<and> ?s r < best_score \<and>
            (\<forall>m \<in> set []. ?s r < ?s m) \<and> (\<forall>m \<in> set moves. ?s r \<le> ?s m)"
        by simp
      then show ?thesis by blast
    next
      assume "\<exists>pre post. moves = pre @ r # post \<and> ?s r < ?s move \<and>
            (\<forall>m \<in> set pre. ?s r < ?s m) \<and> (\<forall>m \<in> set post. ?s r \<le> ?s m)"
      then obtain pre post where p: "moves = pre @ r # post" "?s r < ?s move"
            "\<forall>m \<in> set pre. ?s r < ?s m" "\<forall>m \<in> set post. ?s r \<le> ?s m"
        by blast
      with True have "move # moves = (move # pre) @ r # post \<and> ?s r < best_score \<and>
            (\<forall>m \<in> set (move # pre). ?s r < ?s m) \<and> (\<forall>m \<in> set post. ?s r \<le> ?s m)"
        by auto
      then show ?thesis by blast
    qed
    with res show ?thesis by blast
  next
    case False
    from Cons.IH [OF rest, of best_score best_move] obtain r
      where r: "best_move_loop (CHR ''O'') best_score best_move moves b = (r, b)"
        and alt: "r = best_move \<and> (\<forall>m \<in> set moves. best_score \<le> ?s m) \<or>
          (\<exists>pre post. moves = pre @ r # post \<and> ?s r < best_score \<and>
            (\<forall>m \<in> set pre. ?s r < ?s m) \<and> (\<forall>m \<in> set post. ?s r \<le> ?s m))"
      by blast
    from r False have res: "best_move_loop (CHR ''O'') best_score best_move (move # moves) b = (r, b)"
      by (simp add: best_move_loop_step [OF cell])
    from alt have "r = best_move \<and> (\<forall>m \<in> set (move # moves). best_score \<le> ?s m) \<or>
          (\<exists>pre post. move # moves = pre @ r # post \<and> ?s r < best_score \<and>
            (\<forall>m \<in> set pre. ?s r < ?s m) \<and> (\<forall>m \<in> set post. ?s r \<le> ?s m))"
    proof
      assume "r = best_move \<and> (\<forall>m \<in> set moves. best_score \<le> ?s m)"
      with False show ?thesis by auto
    next
      assume "\<exists>pre post. moves = pre @ r # post \<and> ?s r < best_score \<and>
            (\<forall>m \<in> set pre. ?s r < ?s m) \<and> (\<forall>m \<in> set post. ?s r \<le> ?s m)"
      then obtain pre post where p: "moves = pre @ r # post" "?s r < best_score"
            "\<forall>m \<in> set pre. ?s r < ?s m" "\<forall>m \<in> set post. ?s r \<le> ?s m"
        by blast
      with False have "move # moves = (move # pre) @ r # post \<and> ?s r < best_score \<and>
            (\<forall>m \<in> set (move # pre). ?s r < ?s m) \<and> (\<forall>m \<in> set post. ?s r \<le> ?s m)"
        by auto
      then show ?thesis by blast
    qed
    with res show ?thesis by blast
  qed
qed


lemma available_sorted: "sorted_wrt (<) (get_available_moves b)"
  unfolding get_available_moves_def
  by (intro sorted_wrt_filter) (simp add: sorted_wrt_map)

lemma sorted_before:
  assumes "sorted_wrt (<) (pre @ r # post)" "m \<in> set (pre @ r # post)" "m < (r::int)"
  shows "m \<in> set pre"
  using assms by (auto simp: sorted_wrt_append)

lemma score_bounds [simp]: "\<not> Fin k \<le> NegInf" "\<not> PosInf \<le> Fin k"
  by (simp_all add: less_eq_score_def)


lemma move_score_finite:
  assumes "length b = 9" "set b \<subseteq> {CHR '' '', CHR ''X'', CHR ''O''}"
    and "player = CHR ''X'' \<or> player = CHR ''O''"
  shows "\<exists>k. move_score player b m = Fin k"
proof -
  from assms(2,3) have "set (b[nat m := player]) \<subseteq> {CHR '' '', CHR ''X'', CHR ''O''}"
    by (intro proper_write) auto
  with assms(1) minimax_finite(1) show ?thesis
    by simp
qed

text \<open>
  Claim C4. On a nine-cell board of marks with no winner and an empty cell, for player
  \<open>'X'\<close> or \<open>'O'\<close>, \<open>get_best_move\<close> leaves the board as it found it, so that a
  second call returns the same cell. The cell is an available move whose score is the
  maximum for \<open>'X'\<close> (the minimum for \<open>'O'\<close>), and every available move of a smaller
  index has a strictly smaller score (strictly larger for \<open>'O'\<close>): among equally good
  moves the first in ascending index order is kept, as the strict comparisons
  \<open>score > best_score\<close> and \<open>score < best_score\<close> make it.
\<close>

theorem get_best_move_first_best:
  assumes "length b = 9" and "set b \<subseteq> {CHR '' '', CHR ''X'', CHR ''O''}"
    and "check_winner b = None" and "player = CHR ''X'' \<or> player = CHR ''O''"
  shows "\<exists>r. get_best_move player b = (r, b)
    \<and> get_best_move player (snd (get_best_move player b)) = get_best_move player b
    \<and> r \<in> set (get_available_moves b)
    \<and> (player = CHR ''X'' \<longrightarrow>
         (\<forall>m \<in> set (get_available_moves b).
            move_score player b m \<le> move_score player b r \<and>
            (m < r \<longrightarrow> move_score player b m < move_score player b r)))
    \<and> (player = CHR ''O'' \<longrightarrow>
         (\<forall>m \<in> set (get_available_moves b).
            move_score player b r \<le> move_score player b m \<and>
            (m < r \<longrightarrow> move_score player b r < move_score player b m)))"
proof -
  let ?moves = "get_available_moves b"
  let ?s = "move_score player b"
  have cells: "\<forall>m \<in> set ?moves. nat m < length b \<longrightarrow> b ! nat m = CHR '' ''"
    by (simp add: available_cells)
  from assms(3) have "CHR '' '' \<in> set b"
    by (simp add: check_winner_None_iff)
  with assms(1) have "?moves \<noteq> []"
    by (rule available_nonempty)
  then obtain m0 where m0: "m0 \<in> set ?moves"
    by (cases ?moves) auto
  from move_score_finite [OF assms(1,2,4)] obtain k0 where k0: "?s m0 = Fin k0"
    by blast
  from assms(4) show ?thesis
  proof
    assume x: "player = CHR ''X''"
    from best_move_loop_X [OF cells, of NegInf "- 1"] x obtain r
      where r: "get_best_move player b = (r, b)"
        and alt: "r = - 1 \<and> (\<forall>m \<in> set ?moves. ?s m \<le> NegInf) \<or>
          (\<exists>pre post. ?moves = pre @ r # post \<and> NegInf < ?s r \<and>
            (\<forall>m \<in> set pre. ?s m < ?s r) \<and> (\<forall>m \<in> set post. ?s m \<le> ?s r))"
      unfolding get_best_move_def by auto
    from m0 k0 have "\<not> (\<forall>m \<in> set ?moves. ?s m \<le> NegInf)"
      by (metis score_bounds(1))
    with alt obtain pre post where p: "?moves = pre @ r # post"
      "\<forall>m \<in> set pre. ?s m < ?s r" "\<forall>m \<in> set post. ?s m \<le> ?s r"
      by blast
    from p(1) have mem: "r \<in> set ?moves"
      by simp
    have le: "?s m \<le> ?s r" if "m \<in> set ?moves" for m
      using that p by (auto simp: less_imp_le)
    have lt: "?s m < ?s r" if "m \<in> set ?moves" "m < r" for m
    proof -
      from available_sorted [of b] that have "m \<in> set pre"
        unfolding p(1) by (rule sorted_before)
      with p(2) show ?thesis by blast
    qed
    from r mem le lt x show ?thesis
      by simp
  next
    assume o: "player = CHR ''O''"
    from best_move_loop_O [OF cells, of PosInf "- 1"] o obtain r
      where r: "get_best_move player b = (r, b)"
        and alt: "r = - 1 \<and> (\<forall>m \<in> set ?moves. PosInf \<le> ?s m) \<or>
          (\<exists>pre post. ?moves = pre @ r # post \<and> ?s r < PosInf \<and>
            (\<forall>m \<in> set pre. ?s r < ?s m) \<and> (\<forall>m \<in> set post. ?s r \<le> ?s m))"
      unfolding get_best_move_def by auto
    from m0 k0 have "\<not> (\<forall>m \<in> set ?moves. PosInf \<le> ?s m)"
      by (metis score_bounds(2))
    with alt obtain pre post where p: "?moves = pre @ r # post"
      "\<forall>m \<in> set pre. ?s r < ?s m" "\<forall>m \<in> set post. ?s r \<le> ?s m"
      by blast
    from p(1) have mem: "r \<in> set ?moves"
      by simp
    have le: "?s r \<le> ?s m" if "m \<in> set ?moves" for m
      using that p by (auto simp: less_imp_le)
    have lt: "?s r < ?s m" if "m \<in> set ?moves" "m < r" for m
    proof -
      from available_sorted [of b] that have "m \<in> set pre"
        unfolding p(1) by (rule sorted_before)
      with p(2) show ?thesis by blast
    qed
    from r mem le lt o show ?thesis
      by simp
  qed
qed

theorem get_best_move_first_best_witness:
  "length ''XOXOXO   '' = 9
   \<and> check_winner ''XOXOXO   '' = None
   \<and> get_available_moves ''XOXOXO   '' = [6, 7, 8]
   \<and> map (move_score (CHR ''X'') ''XOXOXO   '') [6, 7, 8] = [Fin 10, Fin 8, Fin 10]
   \<and> get_best_move (CHR ''X'') ''XOXOXO   '' = (6, ''XOXOXO   '')"
proof -
  let ?b = "''XOXOXO   ''"
  have len: "length ?b = 9" and cells: "set ?b \<subseteq> {CHR '' '', CHR ''X'', CHR ''O''}"
    by simp_all
  have nw: "check_winner ?b = None"
    by (simp add: check_winner_def wins_def)
  have av: "get_available_moves ?b = [6, 7, 8]"
    by (simp add: get_available_moves_def range9)
  have sc: "map (move_score (CHR ''X'') ?b) [6, 7, 8] = [Fin 10, Fin 8, Fin 10]"
    by code_simp
  from get_best_move_first_best [OF len cells nw, of "CHR ''X''"] obtain r
    where r: "get_best_move (CHR ''X'') ?b = (r, ?b)" "r \<in> set (get_available_moves ?b)"
      and best: "\<forall>m \<in> set (get_available_moves ?b).
            move_score (CHR ''X'') ?b m \<le> move_score (CHR ''X'') ?b r \<and>
            (m < r \<longrightarrow> move_score (CHR ''X'') ?b m < move_score (CHR ''X'') ?b r)"
    by auto
  from r(2) best sc have "r = 6"
    unfolding av by auto
  with r(1) len nw av sc show ?thesis
    by simp
qed

text \<open>
  Claim C10. On a nine-cell board with no empty cell there is no available move, the loop
  of \<open>get_best_move\<close> does not run and the result is the initial \<open>best_move = -1\<close>:
  not a cell index, and rejected by \<open>is_valid_move\<close>. So a legal result requires a board
  with an empty cell.
\<close>

theorem get_best_move_full_board:
  assumes "length b = 9" and "CHR '' '' \<notin> set b"
  shows "get_available_moves b = []
    \<and> get_best_move player b = (- 1, b)
    \<and> \<not> (0 \<le> fst (get_best_move player b) \<and> fst (get_best_move player b) < 8)
    \<and> \<not> is_valid_move b (fst (get_best_move player b))"
proof -
  have "m \<notin> set (get_available_moves b)" for m
    using assms(2) by (auto simp: available_cells dest: nth_mem)
  then have "get_available_moves b = []"
    by (cases "get_available_moves b") auto
  then show ?thesis
    by (simp add: get_best_move_def is_valid_move_def)
qed

theorem get_best_move_full_board_witness:
  "length ''XOXXOOOXX'' = 9 \<and> CHR '' '' \<notin> set ''XOXXOOOXX''
   \<and> get_best_move (CHR ''X'') ''XOXXOOOXX'' = (- 1, ''XOXXOOOXX'')
   \<and> \<not> is_valid_move ''XOXXOOOXX'' (- 1)"
  using get_best_move_full_board [of "''XOXXOOOXX''" "CHR ''X''"] by auto


section \<open>The defensive strategy\<close>

lemma find_winning_move_find:
  assumes "\<forall>m \<in> set moves. nat m < length b \<longrightarrow> b ! nat m = CHR '' ''"
  shows "find_winning_move mark moves b = (List.find (wins_at b mark) moves, b)"
  using assms
proof (induction moves)
  case Nil
  show ?case by simp
next
  case (Cons move moves)
  from Cons.prems have "b[nat move := mark, nat move := CHR '' ''] = b"
    by (intro undo_write) simp
  with Cons show ?case
    by (simp add: Let_def)
qed

lemma random_choice_member:
  "xs \<noteq> [] \<Longrightarrow> \<exists>m. random_choice rnd xs = Inr m \<and> m \<in> set xs"
  by (simp add: random_choice_def)

lemma defensive_unfold:
  "get_defensive_move rnd player b =
     (let available = get_available_moves b;
          opponent = (if player = CHR ''X'' then CHR ''O'' else CHR ''X'')
      in case List.find (wins_at b opponent) available of
           Some move \<Rightarrow> (Inr move, b)
         | None \<Rightarrow>
            (case List.find (wins_at b player) available of
               Some move \<Rightarrow> (Inr move, b)
             | None \<Rightarrow>
                if 4 \<in> set available then (Inr 4, b)
                else if [m \<leftarrow> available. m \<in> set [1, 3, 5, 7]] \<noteq> []
                then (random_choice rnd [m \<leftarrow> available. m \<in> set [1, 3, 5, 7]], b)
                else (random_choice rnd available, b)))"
proof -
  have cells: "\<forall>m \<in> set (get_available_moves b). nat m < length b \<longrightarrow> b ! nat m = CHR '' ''"
    by (simp add: available_cells)
  show ?thesis
    unfolding get_defensive_move_def
    by (simp only: find_winning_move_find [OF cells] Let_def prod.case)
qed

lemma random_choice_drawn:
  "xs \<noteq> [] \<Longrightarrow> random_choice rnd xs = Inr (xs ! (rnd mod length xs))"
  by (simp add: random_choice_def)

lemma random_choice_each:
  assumes "distinct xs" "e \<in> set xs"
  shows "\<exists>!i. i < length xs \<and> xs ! (i mod length xs) = e"
proof -
  from assms(2) obtain i where i: "i < length xs" "xs ! i = e"
    by (auto simp: in_set_conv_nth)
  show ?thesis
  proof (rule ex1I [of _ i])
    from i show "i < length xs \<and> xs ! (i mod length xs) = e"
      by simp
  next
    fix j assume "j < length xs \<and> xs ! (j mod length xs) = e"
    then have "j < length xs" "xs ! j = xs ! i"
      using i by auto
    with i(1) assms(1) show "j = i"
      using nth_eq_iff_index_eq [of xs j i] by simp
  qed
qed

text \<open>
  Claim C7. On every nine-cell board, for every acting player and every random draw,
  \<open>get_defensive_move\<close> leaves the board as it found it and returns: an immediate
  winning move of the opponent when there is one (also when the acting player could win
  at once); otherwise an immediate winning move of the acting player when there is one;
  otherwise the centre 4 when it is available; otherwise, when an edge cell (1, 3, 5 or
  7) is available, the available edge cell at the drawn index; otherwise the available
  move at the drawn index. In the last two cases each candidate is the answer for exactly
  one draw below the number of candidates, so a uniform draw makes every candidate equally
  likely. In particular, when the opponent has exactly one immediate winning move and the
  acting player has none, it returns exactly that cell.
\<close>

theorem get_defensive_move_order:
  fixes b :: board and player :: char
  assumes "length b = 9"
  defines "opponent \<equiv> (if player = CHR ''X'' then CHR ''O'' else CHR ''X'')"
  defines "available \<equiv> get_available_moves b"
  shows "((\<exists>m \<in> set available. wins_at b opponent m) \<longrightarrow>
            (\<exists>m \<in> set available. wins_at b opponent m \<and> get_defensive_move rnd player b = (Inr m, b)))
    \<and> (\<not> (\<exists>m \<in> set available. wins_at b opponent m) \<and> (\<exists>m \<in> set available. wins_at b player m) \<longrightarrow>
            (\<exists>m \<in> set available. wins_at b player m \<and> get_defensive_move rnd player b = (Inr m, b)))
    \<and> (\<not> (\<exists>m \<in> set available. wins_at b opponent m) \<and> \<not> (\<exists>m \<in> set available. wins_at b player m)
         \<and> 4 \<in> set available \<longrightarrow>
            get_defensive_move rnd player b = (Inr 4, b))
    \<and> (\<not> (\<exists>m \<in> set available. wins_at b opponent m) \<and> \<not> (\<exists>m \<in> set available. wins_at b player m)
         \<and> 4 \<notin> set available \<and> (\<exists>m \<in> set available. m \<in> {1, 3, 5, 7}) \<longrightarrow>
            (\<exists>m \<in> set available. m \<in> {1, 3, 5, 7} \<and> get_defensive_move rnd player b = (Inr m, b))
            \<and> get_defensive_move rnd player b =
                (Inr ([m \<leftarrow> available. m \<in> {1, 3, 5, 7}]
                       ! (rnd mod length [m \<leftarrow> available. m \<in> {1, 3, 5, 7}])), b)
            \<and> (\<forall>e \<in> set available. e \<in> {1, 3, 5, 7} \<longrightarrow>
                 (\<exists>!i. i < length [m \<leftarrow> available. m \<in> {1, 3, 5, 7}]
                        \<and> get_defensive_move i player b = (Inr e, b))))
    \<and> (\<not> (\<exists>m \<in> set available. wins_at b opponent m) \<and> \<not> (\<exists>m \<in> set available. wins_at b player m)
         \<and> 4 \<notin> set available \<and> \<not> (\<exists>m \<in> set available. m \<in> {1, 3, 5, 7}) \<and> available \<noteq> [] \<longrightarrow>
            (\<exists>m \<in> set available. get_defensive_move rnd player b = (Inr m, b))
            \<and> get_defensive_move rnd player b = (Inr (available ! (rnd mod length available)), b)
            \<and> (\<forall>e \<in> set available.
                 (\<exists>!i. i < length available \<and> get_defensive_move i player b = (Inr e, b))))
    \<and> (m0 \<in> set available \<and> wins_at b opponent m0
         \<and> (\<forall>m \<in> set available. wins_at b opponent m \<longrightarrow> m = m0)
         \<and> \<not> (\<exists>m \<in> set available. wins_at b player m) \<longrightarrow>
            get_defensive_move rnd player b = (Inr m0, b))"
proof -
  let ?edge_moves = "[m \<leftarrow> available. m \<in> set [1, 3, 5, 7]]"
  have block: "\<exists>m \<in> set available. wins_at b opponent m \<and> get_defensive_move rnd player b = (Inr m, b)"
    if "\<exists>m \<in> set available. wins_at b opponent m"
  proof -
    from that obtain m where m: "List.find (wins_at b opponent) available = Some m"
      by (cases "List.find (wins_at b opponent) available") (auto simp: find_None_iff)
    then have "m \<in> set available \<and> wins_at b opponent m"
      by (auto simp: find_Some_iff)
    moreover from m have "get_defensive_move rnd player b = (Inr m, b)"
      by (simp add: defensive_unfold opponent_def available_def)
    ultimately show ?thesis by blast
  qed
  have no_block: "List.find (wins_at b opponent) available = None"
    if "\<not> (\<exists>m \<in> set available. wins_at b opponent m)"
    using that by (simp add: find_None_iff)
  have own: "\<exists>m \<in> set available. wins_at b player m \<and> get_defensive_move rnd player b = (Inr m, b)"
    if "\<not> (\<exists>m \<in> set available. wins_at b opponent m)" "\<exists>m \<in> set available. wins_at b player m"
  proof -
    from that(2) obtain m where m: "List.find (wins_at b player) available = Some m"
      by (cases "List.find (wins_at b player) available") (auto simp: find_None_iff)
    then have "m \<in> set available \<and> wins_at b player m"
      by (auto simp: find_Some_iff)
    moreover from m no_block [OF that(1)] have "get_defensive_move rnd player b = (Inr m, b)"
      by (simp add: defensive_unfold opponent_def available_def)
    ultimately show ?thesis by blast
  qed
  have no_own: "List.find (wins_at b player) available = None"
    if "\<not> (\<exists>m \<in> set available. wins_at b player m)"
    using that by (simp add: find_None_iff)
  have centre: "get_defensive_move rnd player b = (Inr 4, b)"
    if "\<not> (\<exists>m \<in> set available. wins_at b opponent m)" "\<not> (\<exists>m \<in> set available. wins_at b player m)"
       "4 \<in> set available"
    using no_block [OF that(1)] no_own [OF that(2)] that(3)
    by (simp add: defensive_unfold opponent_def available_def)
  have em: "?edge_moves = [m \<leftarrow> available. m \<in> {1, 3, 5, 7}]"
    by simp
  have dist: "distinct available"
    using available_sorted [of b] by (simp add: available_def strict_sorted_iff)
  have random: "get_defensive_move i player b =
      (random_choice i (if ?edge_moves \<noteq> [] then ?edge_moves else available), b)"
    if "\<not> (\<exists>m \<in> set available. wins_at b opponent m)" "\<not> (\<exists>m \<in> set available. wins_at b player m)"
       "4 \<notin> set available" for i
    using no_block [OF that(1)] no_own [OF that(2)] that(3)
    by (simp add: defensive_unfold opponent_def available_def)
  have edge: "(\<exists>m \<in> set available. m \<in> {1, 3, 5, 7} \<and> get_defensive_move rnd player b = (Inr m, b))
      \<and> get_defensive_move rnd player b =
          (Inr ([m \<leftarrow> available. m \<in> {1, 3, 5, 7}]
                 ! (rnd mod length [m \<leftarrow> available. m \<in> {1, 3, 5, 7}])), b)
      \<and> (\<forall>e \<in> set available. e \<in> {1, 3, 5, 7} \<longrightarrow>
           (\<exists>!i. i < length [m \<leftarrow> available. m \<in> {1, 3, 5, 7}]
                  \<and> get_defensive_move i player b = (Inr e, b)))"
    if "\<not> (\<exists>m \<in> set available. wins_at b opponent m)" "\<not> (\<exists>m \<in> set available. wins_at b player m)"
       "4 \<notin> set available" "\<exists>m \<in> set available. m \<in> {1, 3, 5, 7}"
  proof -
    let ?es = "[m \<leftarrow> available. m \<in> {1, 3, 5, 7}]"
    from that(4) have ne: "?es \<noteq> []"
      by (auto simp: filter_empty_conv)
    from dist have d: "distinct ?es"
      by simp
    have res: "get_defensive_move i player b = (Inr (?es ! (i mod length ?es)), b)" for i
      using random [OF that(1-3), of i] ne by (simp add: random_choice_drawn)
    have "?es ! (rnd mod length ?es) \<in> set ?es"
      using ne by (intro nth_mem) simp
    then have 1: "\<exists>m \<in> set available. m \<in> {1, 3, 5, 7} \<and> get_defensive_move rnd player b = (Inr m, b)"
      unfolding res [of rnd] by auto
    have 3: "\<exists>!i. i < length ?es \<and> get_defensive_move i player b = (Inr e, b)"
      if "e \<in> set available" "e \<in> {1, 3, 5, 7}" for e
    proof -
      from that have "e \<in> set ?es"
        by simp
      from random_choice_each [OF d this] show ?thesis
        unfolding res by simp
    qed
    from 3 have "\<forall>e \<in> set available. e \<in> {1, 3, 5, 7} \<longrightarrow>
           (\<exists>!i. i < length ?es \<and> get_defensive_move i player b = (Inr e, b))"
      by (intro ballI impI)
    with 1 res [of rnd] show ?thesis
      by (intro conjI)
  qed
  have any: "(\<exists>m \<in> set available. get_defensive_move rnd player b = (Inr m, b))
      \<and> get_defensive_move rnd player b = (Inr (available ! (rnd mod length available)), b)
      \<and> (\<forall>e \<in> set available.
           (\<exists>!i. i < length available \<and> get_defensive_move i player b = (Inr e, b)))"
    if "\<not> (\<exists>m \<in> set available. wins_at b opponent m)" "\<not> (\<exists>m \<in> set available. wins_at b player m)"
       "4 \<notin> set available" "\<not> (\<exists>m \<in> set available. m \<in> {1, 3, 5, 7})" "available \<noteq> []"
  proof -
    from that(4) have e: "?edge_moves = []"
      by (auto simp: filter_empty_conv)
    have res: "get_defensive_move i player b = (Inr (available ! (i mod length available)), b)" for i
      using random [OF that(1-3), of i] e that(5) by (simp add: random_choice_drawn)
    have "available ! (rnd mod length available) \<in> set available"
      using that(5) by (intro nth_mem) simp
    then have 1: "\<exists>m \<in> set available. get_defensive_move rnd player b = (Inr m, b)"
      unfolding res [of rnd] by auto
    have 3: "\<exists>!i. i < length available \<and> get_defensive_move i player b = (Inr e, b)"
      if "e \<in> set available" for e
      using random_choice_each [OF dist that] unfolding res by simp
    from 3 have "\<forall>e \<in> set available.
           (\<exists>!i. i < length available \<and> get_defensive_move i player b = (Inr e, b))"
      by (intro ballI)
    with 1 res [of rnd] show ?thesis
      by (intro conjI)
  qed
  have only: "get_defensive_move rnd player b = (Inr m0, b)"
    if "m0 \<in> set available" "wins_at b opponent m0"
       "\<forall>m \<in> set available. wins_at b opponent m \<longrightarrow> m = m0"
  proof -
    from that(1,2) have "\<exists>m \<in> set available. wins_at b opponent m"
      by blast
    from block [OF this] that(3) show ?thesis
      by auto
  qed
  show ?thesis
  proof (intro conjI)
    show "(\<exists>m \<in> set available. wins_at b opponent m) \<longrightarrow>
        (\<exists>m \<in> set available. wins_at b opponent m \<and> get_defensive_move rnd player b = (Inr m, b))"
      using block by (intro impI)
  next
    show "\<not> (\<exists>m \<in> set available. wins_at b opponent m) \<and> (\<exists>m \<in> set available. wins_at b player m) \<longrightarrow>
        (\<exists>m \<in> set available. wins_at b player m \<and> get_defensive_move rnd player b = (Inr m, b))"
      by (intro impI, elim conjE, rule own)
  next
    show "\<not> (\<exists>m \<in> set available. wins_at b opponent m) \<and> \<not> (\<exists>m \<in> set available. wins_at b player m)
         \<and> 4 \<in> set available \<longrightarrow> get_defensive_move rnd player b = (Inr 4, b)"
      by (intro impI, elim conjE, rule centre)
  next
    show "\<not> (\<exists>m \<in> set available. wins_at b opponent m) \<and> \<not> (\<exists>m \<in> set available. wins_at b player m)
         \<and> 4 \<notin> set available \<and> (\<exists>m \<in> set available. m \<in> {1, 3, 5, 7}) \<longrightarrow>
            (\<exists>m \<in> set available. m \<in> {1, 3, 5, 7} \<and> get_defensive_move rnd player b = (Inr m, b))
            \<and> get_defensive_move rnd player b =
                (Inr ([m \<leftarrow> available. m \<in> {1, 3, 5, 7}]
                       ! (rnd mod length [m \<leftarrow> available. m \<in> {1, 3, 5, 7}])), b)
            \<and> (\<forall>e \<in> set available. e \<in> {1, 3, 5, 7} \<longrightarrow>
                 (\<exists>!i. i < length [m \<leftarrow> available. m \<in> {1, 3, 5, 7}]
                        \<and> get_defensive_move i player b = (Inr e, b)))"
      by (intro impI, elim conjE, rule edge)
  next
    show "\<not> (\<exists>m \<in> set available. wins_at b opponent m) \<and> \<not> (\<exists>m \<in> set available. wins_at b player m)
         \<and> 4 \<notin> set available \<and> \<not> (\<exists>m \<in> set available. m \<in> {1, 3, 5, 7}) \<and> available \<noteq> [] \<longrightarrow>
            (\<exists>m \<in> set available. get_defensive_move rnd player b = (Inr m, b))
            \<and> get_defensive_move rnd player b = (Inr (available ! (rnd mod length available)), b)
            \<and> (\<forall>e \<in> set available.
                 (\<exists>!i. i < length available \<and> get_defensive_move i player b = (Inr e, b)))"
      by (intro impI, elim conjE, rule any)
  next
    show "m0 \<in> set available \<and> wins_at b opponent m0
         \<and> (\<forall>m \<in> set available. wins_at b opponent m \<longrightarrow> m = m0)
         \<and> \<not> (\<exists>m \<in> set available. wins_at b player m) \<longrightarrow>
            get_defensive_move rnd player b = (Inr m0, b)"
      by (intro impI, elim conjE, rule only)
  qed
qed





theorem get_defensive_move_order_witness:
  "length ''XX OO    '' = 9
   \<and> wins_at ''XX OO    '' (CHR ''X'') 2
   \<and> wins_at ''XX OO    '' (CHR ''O'') 5
   \<and> get_defensive_move 0 (CHR ''X'') ''XX OO    '' = (Inr 5, ''XX OO    '')
   \<and> get_defensive_move 3 (CHR ''X'') ''X  OO    '' = (Inr 5, ''X  OO    '')
   \<and> get_available_moves ''X   O    '' = [1, 2, 3, 5, 6, 7, 8]
   \<and> get_defensive_move 0 (CHR ''X'') ''X   O    '' = (Inr 1, ''X   O    '')
   \<and> get_defensive_move 1 (CHR ''X'') ''X   O    '' = (Inr 3, ''X   O    '')
   \<and> get_defensive_move 2 (CHR ''X'') ''X   O    '' = (Inr 5, ''X   O    '')
   \<and> get_defensive_move 3 (CHR ''X'') ''X   O    '' = (Inr 7, ''X   O    '')
   \<and> get_available_moves '' X OXO O '' = [0, 2, 6, 8]
   \<and> get_defensive_move 0 (CHR ''O'') '' X OXO O '' = (Inr 0, '' X OXO O '')
   \<and> get_defensive_move 1 (CHR ''O'') '' X OXO O '' = (Inr 2, '' X OXO O '')
   \<and> get_defensive_move 2 (CHR ''O'') '' X OXO O '' = (Inr 6, '' X OXO O '')
   \<and> get_defensive_move 3 (CHR ''O'') '' X OXO O '' = (Inr 8, '' X OXO O '')"
proof -
  note ev = check_winner_def wins_def
  let ?b1 = "''XX OO    ''" and ?b2 = "''X  OO    ''" and ?b3 = "''X   O    ''"
    and ?b4 = "'' X OXO O ''"
  have oppX: "(if CHR ''X'' = CHR ''X'' then CHR ''O'' else CHR ''X'') = CHR ''O''"
    and oppO: "(if CHR ''O'' = CHR ''X'' then CHR ''O'' else CHR ''X'') = CHR ''X''"
    by simp_all
  have len: "length ?b1 = 9" "length ?b2 = 9" "length ?b3 = 9" "length ?b4 = 9"
    by simp_all
  have av1: "get_available_moves ?b1 = [2, 5, 6, 7, 8]"
    and av2: "get_available_moves ?b2 = [1, 2, 5, 6, 7, 8]"
    and av3: "get_available_moves ?b3 = [1, 2, 3, 5, 6, 7, 8]"
    and av4: "get_available_moves ?b4 = [0, 2, 6, 8]"
    by (simp_all add: get_available_moves_def range9)
  have x2: "wins_at ?b1 (CHR ''X'') 2" and o5: "wins_at ?b1 (CHR ''O'') 5"
    by (simp_all add: ev)
  have only1: "\<not> wins_at ?b1 (CHR ''O'') 2" "\<not> wins_at ?b1 (CHR ''O'') 6"
    "\<not> wins_at ?b1 (CHR ''O'') 7" "\<not> wins_at ?b1 (CHR ''O'') 8"
    by (simp_all add: ev)
  have "\<exists>m \<in> set (get_available_moves ?b1). wins_at ?b1 (CHR ''O'') m"
    unfolding av1 using o5 by (intro bexI [of _ 5]) simp_all
  with get_defensive_move_order [OF len(1), of "CHR ''X''" 0 5, unfolded oppX, THEN conjunct1]
  obtain m where m: "m \<in> set (get_available_moves ?b1)" "wins_at ?b1 (CHR ''O'') m"
      "get_defensive_move 0 (CHR ''X'') ?b1 = (Inr m, ?b1)"
    by blast
  from m(1) have "m = 2 \<or> m = 5 \<or> m = 6 \<or> m = 7 \<or> m = 8"
    unfolding av1 by simp
  with m(2) only1 have "m = 5"
    by blast
  with m(3) have r1: "get_defensive_move 0 (CHR ''X'') ?b1 = (Inr 5, ?b1)"
    by (simp only:)
  have o5': "wins_at ?b2 (CHR ''O'') 5"
    by (simp add: ev)
  have only2: "\<not> wins_at ?b2 (CHR ''O'') 1" "\<not> wins_at ?b2 (CHR ''O'') 2" "\<not> wins_at ?b2 (CHR ''O'') 6"
    "\<not> wins_at ?b2 (CHR ''O'') 7" "\<not> wins_at ?b2 (CHR ''O'') 8"
    by (simp_all add: ev)
  have none2: "\<not> wins_at ?b2 (CHR ''X'') 1" "\<not> wins_at ?b2 (CHR ''X'') 2" "\<not> wins_at ?b2 (CHR ''X'') 5"
    "\<not> wins_at ?b2 (CHR ''X'') 6" "\<not> wins_at ?b2 (CHR ''X'') 7" "\<not> wins_at ?b2 (CHR ''X'') 8"
    by (simp_all add: ev)
  have mem: "5 \<in> set (get_available_moves ?b2)"
    unfolding av2 by simp
  have u: "\<forall>m \<in> set (get_available_moves ?b2). wins_at ?b2 (CHR ''O'') m \<longrightarrow> m = 5"
    unfolding av2 using only2 by (simp only: list.set ball_simps insert_iff) blast
  have n: "\<not> (\<exists>m \<in> set (get_available_moves ?b2). wins_at ?b2 (CHR ''X'') m)"
    unfolding av2 using none2 by (simp only: list.set bex_simps insert_iff) blast
  have r2: "get_defensive_move 3 (CHR ''X'') ?b2 = (Inr 5, ?b2)"
    by (rule get_defensive_move_order [OF len(2), of "CHR ''X''" 3 5, unfolded oppX,
          THEN conjunct2, THEN conjunct2, THEN conjunct2, THEN conjunct2, THEN conjunct2,
          THEN mp, OF conjI [OF mem conjI [OF o5' conjI [OF u n]]]])
  have no3: "\<not> (\<exists>m \<in> set (get_available_moves ?b3). wins_at ?b3 (CHR ''O'') m)"
    "\<not> (\<exists>m \<in> set (get_available_moves ?b3). wins_at ?b3 (CHR ''X'') m)"
    "4 \<notin> set (get_available_moves ?b3)"
    "\<exists>m \<in> set (get_available_moves ?b3). m \<in> {1, 3, 5, 7}"
    unfolding av3 by (simp_all add: ev)
  have edges3: "[m \<leftarrow> get_available_moves ?b3. m \<in> {1, 3, 5, 7}] = [1, 3, 5, 7]"
    unfolding av3 by simp
  have r3: "get_defensive_move i (CHR ''X'') ?b3 = (Inr ([1, 3, 5, 7] ! (i mod 4)), ?b3)" for i
    using get_defensive_move_order [OF len(3), of "CHR ''X''" i 0, unfolded oppX,
          THEN conjunct2, THEN conjunct2, THEN conjunct2, THEN conjunct1,
          THEN mp, OF conjI [OF no3(1) conjI [OF no3(2) conjI [OF no3(3) no3(4)]]],
          THEN conjunct2, THEN conjunct1]
    unfolding edges3 by simp
  have no4: "\<not> (\<exists>m \<in> set (get_available_moves ?b4). wins_at ?b4 (CHR ''X'') m)"
    "\<not> (\<exists>m \<in> set (get_available_moves ?b4). wins_at ?b4 (CHR ''O'') m)"
    "4 \<notin> set (get_available_moves ?b4)"
    "\<not> (\<exists>m \<in> set (get_available_moves ?b4). m \<in> {1, 3, 5, 7})"
    "get_available_moves ?b4 \<noteq> []"
    unfolding av4 by (simp_all add: ev)
  have r4: "get_defensive_move i (CHR ''O'') ?b4 = (Inr ([0, 2, 6, 8] ! (i mod 4)), ?b4)" for i
    using get_defensive_move_order [OF len(4), of "CHR ''O''" i 0, unfolded oppO,
          THEN conjunct2, THEN conjunct2, THEN conjunct2, THEN conjunct2, THEN conjunct1,
          THEN mp, OF conjI [OF no4(1) conjI [OF no4(2) conjI [OF no4(3) conjI [OF no4(4) no4(5)]]]],
          THEN conjunct2, THEN conjunct1]
    unfolding av4 by simp
  from len(1) x2 o5 r1 r2 av3 r3 [of 0] r3 [of 1] r3 [of 2] r3 [of 3]
    av4 r4 [of 0] r4 [of 1] r4 [of 2] r4 [of 3]
  show ?thesis
    by simp
qed


section \<open>The tabular update and the table's entries\<close>

lemma save_q_table_eq: "save_q_table agent = q_table agent"
  by (auto simp: save_q_table_def split: option.splits)

lemma get_q_value_result: "fst (get_q_value state action agent) = q_value_of agent state action"
  by (simp add: get_q_value_def Let_def)

lemma get_q_value_rates:
  "learning_rate (snd (get_q_value state action agent)) = learning_rate agent"
  "discount_factor (snd (get_q_value state action agent)) = discount_factor agent"
  by (simp_all add: get_q_value_def Let_def)

lemma get_q_value_keeps:
  "q_value_of (snd (get_q_value state action agent)) s a = q_value_of agent s a"
  by (auto simp: get_q_value_def Let_def q_row_def split: option.splits)

lemma get_q_value_materialises:
  "\<exists>actions. q_table (snd (get_q_value state action agent)) state = Some actions \<and>
     actions action = Some (q_value_of agent state action)"
  by (simp add: get_q_value_def Let_def)

lemma get_q_value_entries:
  "has_entry agent s a \<Longrightarrow> has_entry (snd (get_q_value state action agent)) s a"
  by (auto simp: get_q_value_def Let_def q_row_def save_q_table_eq split: option.splits)

lemma get_q_value_spec:
  "\<exists>agent1. get_q_value state action agent = (q_value_of agent state action, agent1)
     \<and> (\<forall>s a. q_value_of agent1 s a = q_value_of agent s a)
     \<and> learning_rate agent1 = learning_rate agent
     \<and> discount_factor agent1 = discount_factor agent
     \<and> (\<exists>actions. q_table agent1 state = Some actions \<and>
           actions action = Some (q_value_of agent state action))
     \<and> (\<forall>s a. has_entry agent s a \<longrightarrow> has_entry agent1 s a)"
proof -
  obtain q agent1 where g: "get_q_value state action agent = (q, agent1)"
    by (cases "get_q_value state action agent")
  with get_q_value_result [of state action agent] get_q_value_keeps [of state action agent]
    get_q_value_rates [of state action agent] get_q_value_materialises [of state action agent]
    get_q_value_entries [where agent = agent and state = state and action = action]
  show ?thesis
    by simp
qed

lemma next_q_values_result:
  "\<exists>agent'. next_q_values next_state as agent = (map (q_value_of agent next_state) as, agent')
     \<and> (\<forall>s a. q_value_of agent' s a = q_value_of agent s a)
     \<and> learning_rate agent' = learning_rate agent
     \<and> discount_factor agent' = discount_factor agent
     \<and> (\<forall>s a. has_entry agent s a \<longrightarrow> has_entry agent' s a)
     \<and> (\<forall>a \<in> set as. has_entry agent' next_state a)"
proof (induction as arbitrary: agent)
  case Nil
  show ?case by simp
next
  case (Cons x as)
  obtain agent1 where g: "get_q_value next_state x agent = (q_value_of agent next_state x, agent1)"
    and keep: "\<And>s a. q_value_of agent1 s a = q_value_of agent s a"
    and rates: "learning_rate agent1 = learning_rate agent"
      "discount_factor agent1 = discount_factor agent"
    and new: "\<exists>actions. q_table agent1 next_state = Some actions \<and>
           actions x = Some (q_value_of agent next_state x)"
    and old: "\<And>s a. has_entry agent s a \<Longrightarrow> has_entry agent1 s a"
    using get_q_value_spec [of next_state x agent] by blast
  from Cons.IH [of agent1] obtain agent2
    where n: "next_q_values next_state as agent1 = (map (q_value_of agent1 next_state) as, agent2)"
      and keep2: "\<And>s a. q_value_of agent2 s a = q_value_of agent1 s a"
      and rates2: "learning_rate agent2 = learning_rate agent1"
        "discount_factor agent2 = discount_factor agent1"
      and old2: "\<And>s a. has_entry agent1 s a \<Longrightarrow> has_entry agent2 s a"
      and new2: "\<forall>a \<in> set as. has_entry agent2 next_state a"
    by blast
  from new have "has_entry agent1 next_state x"
    by (auto simp: save_q_table_eq q_row_def)
  with old2 have x: "has_entry agent2 next_state x"
    by blast
  from g n have "next_q_values next_state (x # as) agent =
      (q_value_of agent next_state x # map (q_value_of agent1 next_state) as, agent2)"
    by simp
  with keep keep2 rates rates2 old old2 new2 x show ?case
    by simp
qed

lemma fold_max_Max: "xs \<noteq> [] \<Longrightarrow> fold max (tl xs) (hd xs) = Max (set xs)"
proof (cases xs)
  case Nil
  assume "xs \<noteq> []"
  with Nil show ?thesis by simp
next
  case (Cons a list)
  with Max.set_eq_fold [of a list] show ?thesis
    by simp
qed


lemma update_q_value_spec:
  fixes agent state action reward next_state available_actions
  defines "target \<equiv> q_value_of agent state action
      + learning_rate agent * (reward + discount_factor agent *
          (if available_actions = [] then 0
           else Max (q_value_of agent next_state ` set available_actions))
         - q_value_of agent state action)"
  defines "agent' \<equiv> update_q_value state action reward next_state available_actions agent"
  shows "(\<exists>actions. q_table agent' state = Some actions \<and> actions action = Some target)
    \<and> learning_rate agent' = learning_rate agent
    \<and> discount_factor agent' = discount_factor agent
    \<and> (\<forall>s a. has_entry agent s a \<longrightarrow> has_entry agent' s a)
    \<and> (\<forall>a \<in> set available_actions. has_entry agent' next_state a)"
proof -
  obtain agent1 where g: "get_q_value state action agent = (q_value_of agent state action, agent1)"
    and keep: "\<And>s a. q_value_of agent1 s a = q_value_of agent s a"
    and rates: "learning_rate agent1 = learning_rate agent"
      "discount_factor agent1 = discount_factor agent"
    and old: "\<And>s a. has_entry agent s a \<Longrightarrow> has_entry agent1 s a"
    using get_q_value_spec [of state action agent] by blast
  obtain agent2 where n: "next_q_values next_state available_actions agent1 =
        (map (q_value_of agent1 next_state) available_actions, agent2)"
      and keep2: "\<And>s a. q_value_of agent2 s a = q_value_of agent1 s a"
      and rates2: "learning_rate agent2 = learning_rate agent1"
        "discount_factor agent2 = discount_factor agent1"
      and old2: "\<And>s a. has_entry agent1 s a \<Longrightarrow> has_entry agent2 s a"
      and new2: "\<forall>a \<in> set available_actions. has_entry agent2 next_state a"
    using next_q_values_result [of next_state available_actions agent1] by blast
  have put: "has_entry ag s a \<Longrightarrow>
      has_entry (ag\<lparr>q_table := (q_table ag)(state \<mapsto> (q_row (q_table ag) state)(action \<mapsto> v))\<rparr>) s a"
    for ag s a v
    by (auto simp: save_q_table_eq q_row_def split: option.splits)
  show ?thesis
  proof (cases "available_actions = []")
    case True
    with g have eq: "agent' = agent1\<lparr>q_table :=
        (q_table agent1)(state \<mapsto> (q_row (q_table agent1) state)(action \<mapsto> target))\<rparr>"
      unfolding agent'_def target_def update_q_value_def
      by (simp add: Let_def rates)
    from old put True show ?thesis
      unfolding eq by (simp add: rates)
  next
    case False
    then have mx: "fold max (tl (map (q_value_of agent1 next_state) available_actions))
        (hd (map (q_value_of agent1 next_state) available_actions))
        = Max (q_value_of agent next_state ` set available_actions)"
      by (simp add: fold_max_Max keep del: hd_map)
    from False g n have eq: "agent' = agent2\<lparr>q_table :=
        (q_table agent2)(state \<mapsto> (q_row (q_table agent2) state)(action \<mapsto> target))\<rparr>"
      unfolding agent'_def target_def update_q_value_def
      by (simp add: Let_def rates rates2 mx del: hd_map)
    from old old2 put new2 show ?thesis
      unfolding eq by (simp add: rates rates2)
  qed
qed


lemma update_q_value_effect:
  "q_value_of (update_q_value state action reward next_state available_actions agent) state action
     = q_value_of agent state action
       + learning_rate agent * (reward + discount_factor agent *
           (if available_actions = [] then 0
            else Max (q_value_of agent next_state ` set available_actions))
          - q_value_of agent state action)"
  "learning_rate (update_q_value state action reward next_state available_actions agent)
     = learning_rate agent"
  "discount_factor (update_q_value state action reward next_state available_actions agent)
     = discount_factor agent"
  using update_q_value_spec [where agent = agent and state = state and action = action and reward = reward and next_state = next_state and available_actions = available_actions]
  by (auto simp: q_row_def)

lemma default_agent_fields:
  "learning_rate default_agent = 0.1" "discount_factor default_agent = 0.9"
  "q_value_of default_agent state action = 0"
  by (simp_all add: default_agent_def init_agent_def q_row_def)

text \<open>
  Claim C9. \<open>get_q_value\<close> on a pair the table has no entry for returns 0.0 and leaves
  the entry \<open>0.0\<close> in the table. Hence, after any sequence of calls of
  \<open>get_q_value\<close> and \<open>update_q_value\<close>, the dictionary \<open>save_q_table\<close> writes has an
  entry for every pair that \<open>get_q_value\<close> was called on, and for every pair
  \<open>(next_state, a')\<close> an update looked up, whether or not a value was ever assigned
  to it.
\<close>

theorem lookup_materialises_entries:
  "(\<not> has_entry agent state action \<longrightarrow>
      fst (get_q_value state action agent) = 0
      \<and> (\<exists>actions. q_table (snd (get_q_value state action agent)) state = Some actions
            \<and> actions action = Some 0))
   \<and> (Get_q_value state action \<in> set calls \<longrightarrow>
        (\<exists>actions. save_q_table (run_calls calls agent) state = Some actions
            \<and> action \<in> dom actions))
   \<and> (Update_q_value state action reward next_state available_actions \<in> set calls
        \<and> a \<in> set available_actions \<longrightarrow>
        (\<exists>actions. save_q_table (run_calls calls agent) next_state = Some actions
            \<and> a \<in> dom actions))"
proof -
  have entry: "\<exists>actions. save_q_table ag s = Some actions \<and> x \<in> dom actions"
    if "has_entry ag s x" for ag s x
    using that by (cases "save_q_table ag s") (auto simp: q_row_def)
  have mono: "has_entry ag s x \<Longrightarrow> has_entry (run_calls cs ag) s x" for cs ag s x
  proof (induction cs arbitrary: ag)
    case Nil
    then show ?case by simp
  next
    case (Cons c cs)
    show ?case
    proof (cases c)
      case (Get_q_value s' x')
      with Cons.prems Cons.IH [of "snd (get_q_value s' x' ag)"] get_q_value_entries
      show ?thesis by simp
    next
      case (Update_q_value s' x' r n av)
      with Cons.prems Cons.IH [of "update_q_value s' x' r n av ag"]
        update_q_value_spec [where agent = ag and state = s' and action = x' and reward = r and next_state = n and available_actions = av]
      show ?thesis by simp
    qed
  qed
  have first: "fst (get_q_value state action agent) = 0
      \<and> (\<exists>actions. q_table (snd (get_q_value state action agent)) state = Some actions
            \<and> actions action = Some 0)"
    if "\<not> has_entry agent state action"
  proof -
    from that have "q_value_of agent state action = 0"
      by (auto simp: save_q_table_eq split: option.splits)
    with get_q_value_result [of state action agent]
      get_q_value_materialises [of state action agent]
    show ?thesis by simp
  qed
  have reads: "has_entry (run_calls cs ag) state action"
    if "Get_q_value state action \<in> set cs" for cs ag
    using that
  proof (induction cs arbitrary: ag)
    case Nil
    then show ?case by simp
  next
    case (Cons c cs)
    show ?case
    proof (cases "c = Get_q_value state action")
      case True
      from get_q_value_materialises [of state action ag]
      have "has_entry (snd (get_q_value state action ag)) state action"
        by (auto simp: save_q_table_eq q_row_def)
      from mono [OF this, of cs] True show ?thesis
        by simp
    next
      case False
      with Cons.prems have "Get_q_value state action \<in> set cs"
        by simp
      from Cons.IH [OF this] show ?thesis
        by (cases c) simp_all
    qed
  qed
  have updates: "has_entry (run_calls cs ag) next_state a"
    if "Update_q_value state action reward next_state available_actions \<in> set cs"
       "a \<in> set available_actions" for cs ag
    using that(1)
  proof (induction cs arbitrary: ag)
    case Nil
    then show ?case by simp
  next
    case (Cons c cs)
    show ?case
    proof (cases "c = Update_q_value state action reward next_state available_actions")
      case True
      from that(2) update_q_value_spec [where agent = ag and state = state and action = action and reward = reward and next_state = next_state and available_actions = available_actions]
      have "has_entry (update_q_value state action reward next_state available_actions ag) next_state a"
        by blast
      from mono [OF this, of cs] True show ?thesis
        by simp
    next
      case False
      with Cons.prems have "Update_q_value state action reward next_state available_actions \<in> set cs"
        by simp
      from Cons.IH [OF this] show ?thesis
        by (cases c) simp_all
    qed
  qed
  from first entry [OF reads] entry [OF updates] show ?thesis
    by blast
qed

theorem lookup_materialises_entries_witness:
  "\<not> has_entry default_agent ''         '' 4
   \<and> save_q_table default_agent ''         '' = None
   \<and> fst (get_q_value ''         '' 4 default_agent) = 0
   \<and> save_q_table (run_calls [Get_q_value ''         '' 4] default_agent) ''         ''
       = Some [4 \<mapsto> 0]"
proof -
  have fresh: "\<not> has_entry default_agent ''         '' 4"
    "save_q_table default_agent ''         '' = None"
    by (simp_all add: save_q_table_eq default_agent_def init_agent_def q_row_def)
  have run: "save_q_table (run_calls [Get_q_value ''         '' 4] default_agent) ''         ''
       = Some [4 \<mapsto> 0]"
    by (simp add: save_q_table_eq get_q_value_def default_agent_def init_agent_def q_row_def
        Let_def)
  from lookup_materialises_entries [where agent = default_agent and state = "''         ''"
      and action = 4] fresh(1)
  have "fst (get_q_value ''         '' 4 default_agent) = 0"
    by blast
  with fresh run show ?thesis
    by simp
qed


section \<open>Rewards of the end-of-episode update\<close>

lemma update_q_value_other:
  assumes "s \<noteq> state \<or> a \<noteq> action"
  shows "q_value_of (update_q_value state action reward next_state available_actions agent) s a
    = q_value_of agent s a"
proof -
  obtain agent1 where g: "get_q_value state action agent = (q_value_of agent state action, agent1)"
    and keep: "\<And>s a. q_value_of agent1 s a = q_value_of agent s a"
    using get_q_value_spec [of state action agent] by blast
  obtain agent2 where n: "next_q_values next_state available_actions agent1 =
        (map (q_value_of agent1 next_state) available_actions, agent2)"
      and keep2: "\<And>s a. q_value_of agent2 s a = q_value_of agent1 s a"
    using next_q_values_result [of next_state available_actions agent1] by blast
  have put: "q_row (tbl(state \<mapsto> (q_row tbl state)(action \<mapsto> v))) s a = q_row tbl s a"
    for tbl v
    using assms by (auto simp: q_row_def split: option.splits)
  show ?thesis
  proof (cases "available_actions = []")
    case True
    with g show ?thesis
      unfolding update_q_value_def by (simp add: Let_def put keep)
  next
    case False
    with g n show ?thesis
      unfolding update_q_value_def by (simp add: Let_def put keep keep2 del: hd_map)
  qed
qed

lemma entry_reward_values:
  "entry_reward winner player =
     (if winner = Tie then 0
      else if player = CHR ''X'' \<and> winner = Mark (CHR ''X'') then 1 else - 1)"
  by (simp add: entry_reward_def rewards_def dict_get_def)

text \<open>
  Claim C1 says that every entry of the player who won gets the reward +1. The code gives
  +1 to the entries of \<open>'X'\<close> when \<open>'X'\<close> wins, but for the entries of \<open>'O'\<close> it looks
  the winner up in \<open>rewards\<close>, where \<open>'O'\<close> maps to -1: when \<open>'O'\<close> wins, its entries
  get -1. In the game X0 O4 X1 O2 X3 O6, won by \<open>'O'\<close> on the diagonal 2-4-6, the
  update from new agents leaves \<open>-0.1\<close> for the winning move of \<open>'O'\<close>, where the reward +1
  would leave \<open>0.1\<close>.
\<close>

theorem update_q_learning_penalises_winning_O:
  "entry_reward (Mark (CHR ''X'')) (CHR ''X'') = 1
   \<and> entry_reward (Mark (CHR ''O'')) (CHR ''O'') = - 1
   \<and> q_value_of (snd (update_q_learning (Mark (CHR ''O''))
       [(''         '', 0, CHR ''X''), (''X        '', 4, CHR ''O''), (''X   O    '', 1, CHR ''X''),
        (''XX  O    '', 2, CHR ''O''), (''XXO O    '', 3, CHR ''X''), (''XXOXO    '', 6, CHR ''O'')]
       (default_agent, default_agent))) ''XXOXO    '' 6 = - 0.1"
proof -
  have rx: "entry_reward (Mark (CHR ''X'')) (CHR ''X'') = 1"
    and ro: "entry_reward (Mark (CHR ''O'')) (CHR ''O'') = - 1"
    by (simp_all add: entry_reward_def rewards_def dict_get_def)
  let ?a1 = "update_q_value ''X        '' 4 (- 1) ''X   O    '' [1, 2, 3, 5, 6, 7, 8] default_agent"
  let ?a2 = "update_q_value ''XX  O    '' 2 (- 1) ''XXO O    '' [3, 5, 6, 7, 8] ?a1"
  let ?a3 = "update_q_value ''XXOXO    '' 6 (- 1) ''XXOXO    '' [] ?a2"
  have run: "snd (update_q_learning (Mark (CHR ''O''))
       [(''         '', 0, CHR ''X''), (''X        '', 4, CHR ''O''), (''X   O    '', 1, CHR ''X''),
        (''XX  O    '', 2, CHR ''O''), (''XXO O    '', 3, CHR ''X''), (''XXOXO    '', 6, CHR ''O'')]
       (default_agent, default_agent)) = ?a3"
    by (simp add: update_q_learning_def ro range9)
  have before: "q_value_of ?a2 ''XXOXO    '' 6 = 0"
    by (simp add: update_q_value_other default_agent_fields)
  have rates: "learning_rate ?a2 = 0.1" "discount_factor ?a2 = 0.9"
    by (simp_all add: update_q_value_effect default_agent_fields)
  from update_q_value_effect(1) [of "''XXOXO    ''" 6 "- 1" "''XXOXO    ''" "[]" ?a2] before rates
  have "q_value_of ?a3 ''XXOXO    '' 6 = - 0.1"
    by simp
  with rx ro run show ?thesis
    by (simp only:)
qed


section \<open>Loading from a missing or malformed source\<close>

text \<open>
  Claim C8 says that loading from a missing or malformed source does not crash, leaves an
  empty table and reports the condition to the caller. On a source that is not JSON the
  code raises: JSONDecodeError is not caught and reaches the caller.
\<close>

theorem load_q_table_malformed_raises:
  "load_q_table (\<lambda>key. None) ''q_table_x.json'' Malformed default_agent
     = (Some JSONDecodeError, [], default_agent)"
  by (simp add: load_q_table_def)

text \<open>
  Claim C8, amended. When the source is missing, \<open>load_q_table\<close> raises nothing: it
  prints the not-found message and returns, as a successful load does, and an agent whose
  table was empty still has an empty table. When the source is not JSON the decoding
  error reaches the caller.
\<close>

theorem load_q_table_missing:
  "fst (load_q_table py_int filename Missing agent) = None
   \<and> fst (snd (load_q_table py_int filename Missing agent))
       = [''Q-table file '' @ filename @ '' not found. Starting with empty Q-table.'']
   \<and> (q_table agent = Map.empty \<longrightarrow>
        q_table (snd (snd (load_q_table py_int filename Missing agent))) = Map.empty)
   \<and> fst (load_q_table py_int filename (Document []) agent) = None
   \<and> fst (load_q_table py_int filename Malformed agent) = Some JSONDecodeError"
  by (simp add: load_q_table_def)

theorem load_q_table_missing_witness:
  "q_table default_agent = Map.empty
   \<and> load_q_table (\<lambda>key. None) ''q_table_x.json'' Missing default_agent
       = (None, [''Q-table file q_table_x.json not found. Starting with empty Q-table.''],
          default_agent)"
proof -
  have e: "q_table default_agent = Map.empty"
    by (simp add: default_agent_def init_agent_def)
  from load_q_table_missing [of "\<lambda>key. None" "''q_table_x.json''" default_agent] e
  have "fst (load_q_table (\<lambda>key. None) ''q_table_x.json'' Missing default_agent) = None"
    by blast
  then show ?thesis
    using e by (simp add: load_q_table_def)
qed


section \<open>Illegal moves in the orchestrator\<close>

lemma make_move_illegal:
  "\<not> is_valid_move b position \<Longrightarrow> make_move b position player = (False, b)"
  by (simp add: make_move_def)

text \<open>
  Claim C2, amended. When the move a strategy returns is illegal on the current board,
  \<open>make_move\<close> rejects it: it returns \<open>False\<close> and leaves the board as it is. The
  orchestrator drops that result: in a game in progress the round ends with no outcome,
  the entry is recorded where recording is on, the board is unchanged and the turn
  passes to the other player, with whom the loop goes on.
\<close>

theorem illegal_move_skipped:
  assumes "\<not> is_valid_move (board g) move"
  shows "make_move (board g) move (current_player g) = (False, board g)
    \<and> (check_winner (board g) = None \<longrightarrow>
         play_turn training collect_data move g =
           (None,
            g\<lparr>current_player := (if current_player g = CHR ''X'' then CHR ''O'' else CHR ''X''),
              game_states :=
                (if training \<and> (strategy_x g = Q_LEARNING \<or> strategy_o g = Q_LEARNING)
                 then game_states g @ [(board g, move, current_player g)] else game_states g),
              current_game_moves :=
                (if collect_data
                 then current_game_moves g @ [(board g, move, current_player g)]
                 else current_game_moves g)\<rparr>))
    \<and> (check_winner (board g) = None \<and> get_move_by_strategy g = move \<longrightarrow>
         play_loop get_move_by_strategy training collect_data g =
         play_loop get_move_by_strategy training collect_data
           (g\<lparr>current_player := (if current_player g = CHR ''X'' then CHR ''O'' else CHR ''X''),
              game_states :=
                (if training \<and> (strategy_x g = Q_LEARNING \<or> strategy_o g = Q_LEARNING)
                 then game_states g @ [(board g, move, current_player g)] else game_states g),
              current_game_moves :=
                (if collect_data
                 then current_game_moves g @ [(board g, move, current_player g)]
                 else current_game_moves g)\<rparr>))"
proof -
  let ?g' = "g\<lparr>current_player := (if current_player g = CHR ''X'' then CHR ''O'' else CHR ''X''),
              game_states :=
                (if training \<and> (strategy_x g = Q_LEARNING \<or> strategy_o g = Q_LEARNING)
                 then game_states g @ [(board g, move, current_player g)] else game_states g),
              current_game_moves :=
                (if collect_data
                 then current_game_moves g @ [(board g, move, current_player g)]
                 else current_game_moves g)\<rparr>"
  from assms have rejected: "make_move (board g) move (current_player g) = (False, board g)"
    by (rule make_move_illegal)
  have turn: "play_turn training collect_data move g = (None, ?g')"
    if "check_winner (board g) = None"
    using that assms by (auto simp: play_turn_def Let_def make_move_illegal)
  have loop: "play_loop get_move_by_strategy training collect_data g =
      play_loop get_move_by_strategy training collect_data ?g'"
    if "check_winner (board g) = None" "get_move_by_strategy g = move"
    by (subst play_loop.simps) (simp only: that(2) turn [OF that(1)] prod.case option.case)
  from rejected turn loop show ?thesis
    by blast
qed


theorem illegal_move_skipped_witness:
  "\<not> is_valid_move ''X        '' 0
   \<and> check_winner ''X        '' = None
   \<and> make_move ''X        '' 0 (CHR ''O'') = (False, ''X        '')
   \<and> play_turn True True 0
        \<lparr>board = ''X        '', current_player = CHR ''O'',
         strategy_x = Q_LEARNING, strategy_o = RANDOM,
         q_agent_x = default_agent, q_agent_o = default_agent,
         game_states = [(''         '', 0, CHR ''X'')],
         current_game_moves = [(''         '', 0, CHR ''X'')]\<rparr>
      = (None,
         \<lparr>board = ''X        '', current_player = CHR ''X'',
          strategy_x = Q_LEARNING, strategy_o = RANDOM,
          q_agent_x = default_agent, q_agent_o = default_agent,
          game_states = [(''         '', 0, CHR ''X''), (''X        '', 0, CHR ''O'')],
          current_game_moves = [(''         '', 0, CHR ''X''), (''X        '', 0, CHR ''O'')]\<rparr>)"
proof -
  let ?g = "\<lparr>board = ''X        '', current_player = CHR ''O'',
         strategy_x = Q_LEARNING, strategy_o = RANDOM,
         q_agent_x = default_agent, q_agent_o = default_agent,
         game_states = [(''         '', 0, CHR ''X'')],
         current_game_moves = [(''         '', 0, CHR ''X'')]\<rparr>"
  have illegal: "\<not> is_valid_move (board ?g) 0"
    by (simp add: is_valid_move_def)
  have nw: "check_winner (board ?g) = None"
    by (simp add: check_winner_def wins_def)
  from illegal_move_skipped [OF illegal, of True True] nw illegal show ?thesis
    by simp
qed

lemma illegal_turn_continues:
  assumes "\<not> is_valid_move (board g) move" "check_winner (board g) = None"
  shows "\<exists>g'. play_turn training collect_data move g = (None, g') \<and> board g' = board g"
  using assms by (auto simp: play_turn_def Let_def make_move_illegal)

lemma always_zero_never_ends:
  assumes "play_loop get_move training collect_data g = Some y"
  shows "get_move = (\<lambda>g. 0) \<longrightarrow> board g = ''X        '' \<longrightarrow> False"
  using assms
proof (induction get_move training collect_data g y rule: play_loop.raw_induct [rotated, consumes 1])
  case (1 play_loop' get_move training collect_data g y)
  show ?case
  proof (intro impI)
    assume gm: "get_move = (\<lambda>g. 0)" and b: "board g = ''X        ''"
    from b have illegal: "\<not> is_valid_move (board g) 0"
      by (simp add: is_valid_move_def)
    from b have nw: "check_winner (board g) = None"
      by (simp add: check_winner_def wins_def)
    from illegal_turn_continues [OF illegal nw, of training collect_data]
    obtain g' where t: "play_turn training collect_data 0 g = (None, g')" and b': "board g' = board g"
      by auto
    from 1(2) t gm have "play_loop' get_move training collect_data g' = Some y"
      by simp
    from 1(1) [OF this] gm b b' show False
      by simp
  qed
qed

text \<open>
  Claim C2 says that an illegal move of a strategy makes the orchestrator fail fast and
  is never skipped with play continuing. After X has taken cell 0, the move 0 for O is
  illegal, and the round ends with no outcome and no error, the board unchanged and X
  to move; with a strategy that always answers 0 the game never ends.
\<close>

theorem illegal_move_tolerated:
  "\<not> is_valid_move ''X        '' 0
   \<and> check_winner ''X        '' = None
   \<and> play_turn False False 0
        \<lparr>board = ''X        '', current_player = CHR ''O'',
         strategy_x = MINIMAX, strategy_o = MINIMAX,
         q_agent_x = default_agent, q_agent_o = default_agent,
         game_states = [], current_game_moves = []\<rparr>
      = (None,
         \<lparr>board = ''X        '', current_player = CHR ''X'',
          strategy_x = MINIMAX, strategy_o = MINIMAX,
          q_agent_x = default_agent, q_agent_o = default_agent,
          game_states = [], current_game_moves = []\<rparr>)
   \<and> play_self_game (\<lambda>g. 0) False False
        \<lparr>board = ''         '', current_player = CHR ''X'',
         strategy_x = MINIMAX, strategy_o = MINIMAX,
         q_agent_x = default_agent, q_agent_o = default_agent,
         game_states = [], current_game_moves = []\<rparr> = None"
proof -
  note ev = play_turn_def Let_def make_move_def is_valid_move_def check_winner_def wins_def
  let ?g0 = "\<lparr>board = ''         '', current_player = CHR ''X'',
         strategy_x = MINIMAX, strategy_o = MINIMAX,
         q_agent_x = default_agent, q_agent_o = default_agent,
         game_states = [], current_game_moves = []\<rparr>"
  let ?g1 = "\<lparr>board = ''X        '', current_player = CHR ''O'',
         strategy_x = MINIMAX, strategy_o = MINIMAX,
         q_agent_x = default_agent, q_agent_o = default_agent,
         game_states = [], current_game_moves = []\<rparr>"
  let ?g2 = "\<lparr>board = ''X        '', current_player = CHR ''X'',
          strategy_x = MINIMAX, strategy_o = MINIMAX,
          q_agent_x = default_agent, q_agent_o = default_agent,
          game_states = [], current_game_moves = []\<rparr>"
  have illegal: "\<not> is_valid_move ''X        '' 0"
    by (simp add: is_valid_move_def)
  have nw: "check_winner ''X        '' = None"
    by (simp add: check_winner_def wins_def)
  have turn: "play_turn False False 0 ?g1 = (None, ?g2)"
    by (simp add: ev)
  have start: "?g0\<lparr>board := reset_board, current_player := CHR ''X'',
          game_states := [], current_game_moves := []\<rparr> = ?g0"
    by (simp add: reset_board_def eval_nat_numeral)
  have first: "play_turn False False 0 ?g0 = (None, ?g1)"
    by (simp add: ev)
  have "play_loop (\<lambda>g. 0) False False ?g0 = play_loop (\<lambda>g. 0) False False ?g1"
    by (subst play_loop.simps) (simp only: first prod.case option.case)
  moreover have "play_loop (\<lambda>g. 0) False False ?g1 = None"
  proof (cases "play_loop (\<lambda>g. 0) False False ?g1")
    case None
    then show ?thesis .
  next
    case (Some y)
    from always_zero_never_ends [OF Some] show ?thesis
      by simp
  qed
  ultimately have "play_self_game (\<lambda>g. 0) False False ?g0 = None"
    unfolding play_self_game_def start by simp
  with illegal nw turn show ?thesis
    by (intro conjI)
qed

end
